theory Spec2Isabelle
  imports Main "HOL-Library.Word" "HOL-Library.Sublist"
begin

unbundle bit_operations_syntax

section \<open>The cross-thread transfer engine of extension.cpp\<close>

text \<open>
  The engine has two threads: the host thread (\<open>FrameHook\<close>, \<open>AddRequestToQueue\<close>,
  \<open>SDK_OnUnload\<close>, the frame actions \<open>log_msg\<close>, \<open>log_err\<close>, \<open>execute_cb\<close>) and the
  reactor thread running the libuv loop (\<open>AsyncPerformRequests\<close>, \<open>PerformRequests\<close>,
  \<open>CurlSocketActivity\<close>, and libcurl's callbacks \<open>CurlSocketCallback\<close> and
  \<open>CurlTimeoutCallback\<close>). Every handler is modelled as a function from the engine state
  to the engine state; the globals of extension.cpp are the fields of the record
  \<open>engine\<close>. Every call that leaves extension.cpp (queue methods, libcurl, libuv, the
  host's interfaces, virtual methods of a context) is also appended to the field
  \<open>trace\<close>, in program order, so that what a handler did and in which order can be
  stated.
\<close>

subsection \<open>Transfer contexts and easy handles\<close>

text \<open>
  Modelled from the spec: the class \<open>IHTTPContext\<close> (declared in a header outside
  extension.cpp): one submitted operation with "an initialization step that may fail"
  and a completion callback. \<open>ident\<close> tells contexts apart; \<open>init_ok\<close> is what
  the virtual \<open>InitCurl()\<close> of this context returns.
\<close>

record IHTTPContext =
  ident :: nat
  init_ok :: bool

definition InitCurl :: "IHTTPContext \<Rightarrow> bool" where
  "InitCurl context = init_ok context"

text \<open>
  The easy handle \<open>context->curl\<close>. \<open>CheckCompletedRequests\<close> reads the context back
  from the handle with \<open>curl_easy_getinfo(curl, CURLINFO_PRIVATE, &context)\<close>, so a
  handle is modelled as carrying its context.
\<close>

datatype CURL = EasyHandle IHTTPContext

definition curl :: "IHTTPContext \<Rightarrow> CURL" where
  "curl context = EasyHandle context"

fun CURLINFO_PRIVATE :: "CURL \<Rightarrow> IHTTPContext" where
  "CURLINFO_PRIVATE (EasyHandle context) = context"

subsection \<open>LockedQueue\<close>

text \<open>
  Modelled from the spec: the template \<open>LockedQueue<T>\<close> of queue.h, "a generic
  thread-safe FIFO with explicit acquire/release scoping", with the contract
  \<open>lock()\<close>, \<open>unlock()\<close>, \<open>push(item)\<close>, \<open>pop() -> item\<close>, \<open>empty() -> bool\<close>.
  \<open>Pop\<close> of an empty queue has no defined result and is \<open>None\<close> here.
\<close>

record 'a LockedQueue =
  items :: "'a list"
  locked :: bool

definition Lock :: "'a LockedQueue \<Rightarrow> 'a LockedQueue" where
  "Lock q = q\<lparr>locked := True\<rparr>"

definition Unlock :: "'a LockedQueue \<Rightarrow> 'a LockedQueue" where
  "Unlock q = q\<lparr>locked := False\<rparr>"

definition Push :: "'a \<Rightarrow> 'a LockedQueue \<Rightarrow> 'a LockedQueue" where
  "Push item q = q\<lparr>items := items q @ [item]\<rparr>"

definition Pop :: "'a LockedQueue \<Rightarrow> ('a \<times> 'a LockedQueue) option" where
  "Pop q = (case items q of [] \<Rightarrow> None | item # rest \<Rightarrow> Some (item, q\<lparr>items := rest\<rparr>))"

definition Empty :: "'a LockedQueue \<Rightarrow> bool" where
  "Empty q = (case items q of [] \<Rightarrow> True | _ # _ \<Rightarrow> False)"

subsection \<open>Constants of the libcurl and libuv headers\<close>

type_synonym curl_socket_t = int

definition MAX_PROCESS :: nat where
  "MAX_PROCESS = 10"

definition CURL_POLL_IN :: int where "CURL_POLL_IN = 1"

definition CURL_POLL_OUT :: int where "CURL_POLL_OUT = 2"

definition CURL_POLL_INOUT :: int where "CURL_POLL_INOUT = 3"

definition CURL_POLL_REMOVE :: int where "CURL_POLL_REMOVE = 4"

definition CURL_CSELECT_IN :: int where "CURL_CSELECT_IN = 1"

definition CURL_CSELECT_OUT :: int where "CURL_CSELECT_OUT = 2"

definition CURL_SOCKET_TIMEOUT :: curl_socket_t where "CURL_SOCKET_TIMEOUT = - 1"

definition UV_READABLE :: int where "UV_READABLE = 1"

definition UV_WRITABLE :: int where "UV_WRITABLE = 2"

datatype CURLMSG = CURLMSG_NONE | CURLMSG_DONE | CURLMSG_LAST

record CURLMsg =
  msg :: CURLMSG
  easy_handle :: CURL

text \<open>\<open>long\<close> on an LP64 target, and the \<open>uint64_t\<close> of \<open>uv_timer_start\<close>.\<close>

type_synonym long = "64 word"

type_synonym uint64_t = "64 word"

subsection \<open>The globals\<close>

datatype queue_id = RequestQ | CompletedQ

datatype uv_async = AsyncPerformRequestsH | AsyncStopLoopH

datatype handle_type = htHTTPRequest | htHTTPResponse | htJSON | htJSONObjectKeys | htWebSocket

text \<open>
  What a call passes where libcurl expects the multi handle: the handle \<open>g_Curl\<close>, or
  the address \<open>&g_Curl\<close> of the variable that holds it.
\<close>

datatype multi_argument = MultiHandle | AddressOfMultiHandle

text \<open>
  A socket watch context (\<open>CurlContext\<close>): its socket and the interest its poll handle
  is started with (\<open>None\<close>: not polling). Contexts live in a store indexed by address.
\<close>

record CurlContext =
  socket :: curl_socket_t
  polling :: "int option"

text \<open>What is handed to the host's \<open>AddFrameAction\<close>: the function and its argument.\<close>

datatype frame_action = LogMsgAction string | LogErrAction string | ExecuteCbAction nat

text \<open>
  The calls recorded in the trace: the methods of the two queues; \<open>InitCurl\<close>, \<open>delete\<close>
  and \<open>OnCompleted\<close> of a context; the calls into libcurl and libuv; the constructor and
  \<open>Destroy\<close> of a watch context; the calls of \<open>SDK_OnLoad\<close> and \<open>SDK_OnUnload\<close>; the host's
  logger, \<open>free\<close>, the invocation and the release of a deferred callback, and
  \<open>AddFrameAction\<close>.
\<close>

datatype event =
    EvLock queue_id
  | EvUnlock queue_id
  | EvEmpty queue_id
  | EvPush queue_id IHTTPContext
  | EvPop queue_id IHTTPContext
  | EvInitCurl IHTTPContext
  | EvDelete IHTTPContext
  | EvOnCompleted IHTTPContext
  | EvMultiAddHandle CURL
  | EvMultiRemoveHandle CURL
  | EvMultiInfoRead
  | EvMultiSocketAction curl_socket_t int
  | EvMultiAssign curl_socket_t "nat option"
  | EvMultiCleanup multi_argument
  | EvGlobalCleanup
  | EvAsyncSend uv_async
  | EvTimerStop
  | EvTimerStart uint64_t uint64_t
  | EvNewCurlContext nat curl_socket_t
  | EvDestroyCurlContext nat
  | EvPollStart nat int
  | EvPollStop nat
  | EvGlobalInit
  | EvMultiInit
  | EvThreadCreate
  | EvAddGameFrameHook
  | EvEventLoopLoad
  | EvStop
  | EvThreadJoin
  | EvLoopClose
  | EvRemoveType handle_type
  | EvRemoveGameFrameHook
  | EvEventLoopUnload
  | EvUnloadedStore bool
  | EvHostLogMessage string
  | EvHostLogError string
  | EvFree string
  | EvInvokeCallback nat
  | EvReleaseCallback nat
  | EvAddFrameAction frame_action

text \<open>
  The multi handle \<open>g_Curl\<close>, as far as extension.cpp uses it: the easy handles added
  and not removed (the active set), the messages \<open>curl_multi_info_read\<close> has still to
  return, and the pointer \<open>curl_multi_assign\<close> attached to each socket.
\<close>

record CURLM =
  handles :: "CURL list"
  messages :: "CURLMsg list"
  assigned :: "curl_socket_t \<rightharpoonup> nat"

record uv_timer_t =
  armed :: bool
  timer_timeout :: uint64_t
  timer_repeat :: uint64_t

text \<open>
  The globals of extension.cpp: \<open>g_RequestQueue\<close>, \<open>g_CompletedRequestQueue\<close>, \<open>g_Curl\<close>,
  \<open>g_Timeout\<close>, the pending flags of the async handles \<open>g_AsyncPerformRequests\<close> and
  \<open>g_AsyncStopLoop\<close>, whether the reactor thread (\<open>g_Thread\<close>) runs its loop (\<open>g_Loop\<close>),
  and the flag \<open>unloaded\<close>; with them what the engine owns outside its globals: whether
  the frame hook is installed, the watch contexts on the heap and the next free address,
  and the frame actions queued at the host. \<open>faulted\<close> is set where the C++ has no
  defined behaviour (\<open>Pop\<close> of an empty queue, use of an address that holds no watch
  context). \<open>trace\<close> holds the calls made so far.
\<close>

record engine =
  RequestQueue :: "IHTTPContext LockedQueue"
  CompletedRequestQueue :: "IHTTPContext LockedQueue"
  Curl :: CURLM
  Timeout :: uv_timer_t
  async_pending :: "uv_async \<Rightarrow> bool"
  loop_running :: bool
  frame_hook :: bool
  contexts :: "nat \<rightharpoonup> CurlContext"
  next_context :: nat
  frame_actions :: "frame_action list"
  unloaded :: bool
  faulted :: bool
  trace :: "event list"

definition emit :: "event \<Rightarrow> engine \<Rightarrow> engine" where
  "emit e s = s\<lparr>trace := trace s @ [e]\<rparr>"

subsection \<open>Queue methods on the two global queues\<close>

fun queue_of :: "queue_id \<Rightarrow> engine \<Rightarrow> IHTTPContext LockedQueue" where
  "queue_of RequestQ s = RequestQueue s"
| "queue_of CompletedQ s = CompletedRequestQueue s"

fun set_queue :: "queue_id \<Rightarrow> IHTTPContext LockedQueue \<Rightarrow> engine \<Rightarrow> engine" where
  "set_queue RequestQ q s = s\<lparr>RequestQueue := q\<rparr>"
| "set_queue CompletedQ q s = s\<lparr>CompletedRequestQueue := q\<rparr>"

definition q_Lock :: "queue_id \<Rightarrow> engine \<Rightarrow> engine" where
  "q_Lock qid s = emit (EvLock qid) (set_queue qid (Lock (queue_of qid s)) s)"

definition q_Unlock :: "queue_id \<Rightarrow> engine \<Rightarrow> engine" where
  "q_Unlock qid s = emit (EvUnlock qid) (set_queue qid (Unlock (queue_of qid s)) s)"

definition q_Push :: "queue_id \<Rightarrow> IHTTPContext \<Rightarrow> engine \<Rightarrow> engine" where
  "q_Push qid context s = emit (EvPush qid context) (set_queue qid (Push context (queue_of qid s)) s)"

definition q_Empty :: "queue_id \<Rightarrow> engine \<Rightarrow> bool \<times> engine" where
  "q_Empty qid s = (Empty (queue_of qid s), emit (EvEmpty qid) s)"

definition q_Pop :: "queue_id \<Rightarrow> engine \<Rightarrow> (IHTTPContext \<times> engine) option" where
  "q_Pop qid s =
     (case Pop (queue_of qid s) of
        None \<Rightarrow> None
      | Some (context, q) \<Rightarrow> Some (context, emit (EvPop qid context) (set_queue qid q s)))"

subsection \<open>Calls on a context and on the multi handle\<close>

definition call_InitCurl :: "IHTTPContext \<Rightarrow> engine \<Rightarrow> bool \<times> engine" where
  "call_InitCurl context s = (InitCurl context, emit (EvInitCurl context) s)"

definition delete_context :: "IHTTPContext \<Rightarrow> engine \<Rightarrow> engine" where
  "delete_context context s = emit (EvDelete context) s"

definition call_OnCompleted :: "IHTTPContext \<Rightarrow> engine \<Rightarrow> engine" where
  "call_OnCompleted context s = emit (EvOnCompleted context) s"

definition curl_multi_add_handle :: "CURL \<Rightarrow> engine \<Rightarrow> engine" where
  "curl_multi_add_handle h s =
     emit (EvMultiAddHandle h) (s\<lparr>Curl := (Curl s)\<lparr>handles := handles (Curl s) @ [h]\<rparr>\<rparr>)"

definition curl_multi_remove_handle :: "CURL \<Rightarrow> engine \<Rightarrow> engine" where
  "curl_multi_remove_handle h s =
     emit (EvMultiRemoveHandle h) (s\<lparr>Curl := (Curl s)\<lparr>handles := remove1 h (handles (Curl s))\<rparr>\<rparr>)"

definition curl_multi_info_read :: "engine \<Rightarrow> CURLMsg option \<times> engine" where
  "curl_multi_info_read s =
     (case messages (Curl s) of
        [] \<Rightarrow> (None, emit EvMultiInfoRead s)
      | m # rest \<Rightarrow> (Some m, emit EvMultiInfoRead (s\<lparr>Curl := (Curl s)\<lparr>messages := rest\<rparr>\<rparr>)))"

definition uv_async_send :: "uv_async \<Rightarrow> engine \<Rightarrow> engine" where
  "uv_async_send a s = emit (EvAsyncSend a) (s\<lparr>async_pending := (async_pending s)(a := True)\<rparr>)"

subsection \<open>Transfer admission: AsyncPerformRequests\<close>

text \<open>
  The loop \<open>while (!g_RequestQueue.Empty() && count < MAX_PROCESS)\<close>. A failed
  \<open>InitCurl\<close> deletes the context and continues without counting.
\<close>

function AsyncPerformRequests_loop :: "nat \<Rightarrow> engine \<Rightarrow> engine" where
  "AsyncPerformRequests_loop count s =
     (case q_Empty RequestQ s of
        (e, s1) \<Rightarrow>
          if \<not> e \<and> count < MAX_PROCESS then
            (case q_Pop RequestQ s1 of
               None \<Rightarrow> s1\<lparr>faulted := True\<rparr>
             | Some (context, s2) \<Rightarrow>
                 (case call_InitCurl context s2 of
                    (ok, s3) \<Rightarrow>
                      if \<not> ok then AsyncPerformRequests_loop count (delete_context context s3)
                      else AsyncPerformRequests_loop (count + 1)
                             (curl_multi_add_handle (curl context) s3)))
          else s1)"
  by pat_completeness auto

lemma pending_after_pop:
  "q_Pop RequestQ s = Some (context, s') \<Longrightarrow>
     items (RequestQueue s) = context # items (RequestQueue s')"
  by (auto simp: q_Pop_def Pop_def emit_def split: list.splits)

lemma pending_q_Empty [simp]: "RequestQueue (snd (q_Empty qid s)) = RequestQueue s"
  by (simp add: q_Empty_def emit_def)

lemma pending_call_InitCurl [simp]: "RequestQueue (snd (call_InitCurl c s)) = RequestQueue s"
  by (simp add: call_InitCurl_def emit_def)

lemma pending_delete_context [simp]: "RequestQueue (delete_context c s) = RequestQueue s"
  by (simp add: delete_context_def emit_def)

lemma pending_add_handle [simp]: "RequestQueue (curl_multi_add_handle h s) = RequestQueue s"
  by (simp add: curl_multi_add_handle_def emit_def)

termination AsyncPerformRequests_loop
proof (relation "measure (\<lambda>(count, s). length (items (RequestQueue s)))", goal_cases)
  case 1
  show ?case by simp
next
  case (2 count s e s1 p c s2 ok s3)
  from 2(1) have "s1 = snd (q_Empty RequestQ s)" by (metis snd_conv)
  moreover from 2(5) have "s3 = snd (call_InitCurl c s2)" by (metis snd_conv)
  moreover from 2(3,4) have "q_Pop RequestQ s1 = Some (c, s2)" by simp
  ultimately show ?case by (auto dest: pending_after_pop)
next
  case (3 count s e s1 p c s2 ok s3)
  from 3(1) have "s1 = snd (q_Empty RequestQ s)" by (metis snd_conv)
  moreover from 3(5) have "s3 = snd (call_InitCurl c s2)" by (metis snd_conv)
  moreover from 3(3,4) have "q_Pop RequestQ s1 = Some (c, s2)" by simp
  ultimately show ?case by (auto dest: pending_after_pop)
qed

declare AsyncPerformRequests_loop.simps [simp del]

definition AsyncPerformRequests :: "engine \<Rightarrow> engine" where
  "AsyncPerformRequests s = q_Unlock RequestQ (AsyncPerformRequests_loop 0 (q_Lock RequestQ s))"

subsection \<open>Completion draining: CheckCompletedRequests\<close>

function CheckCompletedRequests :: "engine \<Rightarrow> engine" where
  "CheckCompletedRequests s =
     (case curl_multi_info_read s of
        (None, s1) \<Rightarrow> s1
      | (Some message, s1) \<Rightarrow>
          if msg message \<noteq> CURLMSG_DONE then CheckCompletedRequests s1
          else
            (let h = easy_handle message;
                 s2 = curl_multi_remove_handle h s1;
                 context = CURLINFO_PRIVATE h;
                 s3 = q_Lock CompletedQ s2;
                 s4 = q_Push CompletedQ context s3;
                 s5 = q_Unlock CompletedQ s4
             in CheckCompletedRequests s5))"
  by pat_completeness auto

lemma messages_after_info_read:
  "(Some m, s') = curl_multi_info_read s \<Longrightarrow> messages (Curl s) = m # messages (Curl s')"
  by (auto simp: curl_multi_info_read_def emit_def split: list.splits)

lemma messages_after_push [simp]:
  "messages (Curl (q_Unlock qa (q_Push qb c (q_Lock qc (curl_multi_remove_handle h s))))) =
     messages (Curl s)"
  by (cases qa; cases qb; cases qc)
     (simp_all add: q_Unlock_def q_Push_def q_Lock_def curl_multi_remove_handle_def emit_def)

termination CheckCompletedRequests
  by (relation "measure (\<lambda>s. length (messages (Curl s)))")
     (auto dest: messages_after_info_read)

declare CheckCompletedRequests.simps [simp del]

subsection \<open>The shared timer and the socket watch contexts\<close>

definition uv_timer_stop :: "engine \<Rightarrow> engine" where
  "uv_timer_stop s = emit EvTimerStop (s\<lparr>Timeout := (Timeout s)\<lparr>armed := False\<rparr>\<rparr>)"

text \<open>
  \<open>uv_timer_start(&g_Timeout, &PerformRequests, timeout, repeat)\<close>: the callback is
  \<open>PerformRequests\<close> at the only call.
\<close>

definition uv_timer_start :: "uint64_t \<Rightarrow> uint64_t \<Rightarrow> engine \<Rightarrow> engine" where
  "uv_timer_start timeout repeat s =
     emit (EvTimerStart timeout repeat)
       (s\<lparr>Timeout := \<lparr>armed = True, timer_timeout = timeout, timer_repeat = repeat\<rparr>\<rparr>)"

text \<open>Returns 0 on both paths; \<open>timeout_ms\<close> is converted from \<open>long\<close> to \<open>uint64_t\<close>.\<close>

definition CurlTimeoutCallback :: "long \<Rightarrow> engine \<Rightarrow> engine" where
  "CurlTimeoutCallback timeout_ms s =
     (if timeout_ms = - 1 then uv_timer_stop s
      else uv_timer_start (scast timeout_ms) 0 s)"

text \<open>
  Modelled from the spec: the constructor and \<open>Destroy()\<close> of \<open>CurlContext\<close> (declared
  in a header outside extension.cpp). A new context is a poll registration for its
  socket that is not polling yet; \<open>Destroy\<close> is "stop polling and destroy the Socket
  Watch Context". Using an address that holds no context is a fault.
\<close>

definition new_CurlContext :: "curl_socket_t \<Rightarrow> engine \<Rightarrow> nat \<times> engine" where
  "new_CurlContext sock s =
     (let p = next_context s
      in (p, emit (EvNewCurlContext p sock)
               (s\<lparr>contexts := (contexts s)(p \<mapsto> \<lparr>socket = sock, polling = None\<rparr>),
                  next_context := p + 1\<rparr>)))"

definition Destroy :: "nat \<Rightarrow> engine \<Rightarrow> engine" where
  "Destroy p s =
     (case contexts s p of
        None \<Rightarrow> s\<lparr>faulted := True\<rparr>
      | Some c \<Rightarrow>
          emit (EvDestroyCurlContext p) (emit (EvPollStop p) (s\<lparr>contexts := (contexts s)(p := None)\<rparr>)))"

definition uv_poll_start :: "nat \<Rightarrow> int \<Rightarrow> engine \<Rightarrow> engine" where
  "uv_poll_start p events s =
     (case contexts s p of
        None \<Rightarrow> s\<lparr>faulted := True\<rparr>
      | Some c \<Rightarrow>
          emit (EvPollStart p events) (s\<lparr>contexts := (contexts s)(p \<mapsto> c\<lparr>polling := Some events\<rparr>)\<rparr>))"

definition curl_multi_assign :: "curl_socket_t \<Rightarrow> nat option \<Rightarrow> engine \<Rightarrow> engine" where
  "curl_multi_assign sock p s =
     emit (EvMultiAssign sock p) (s\<lparr>Curl := (Curl s)\<lparr>assigned := (assigned (Curl s))(sock := p)\<rparr>\<rparr>)"

text \<open>
  \<open>socketdata\<close> is the pointer libcurl holds for the socket (\<open>None\<close>: null). The
  \<open>switch\<close> has no default: any other \<open>action\<close> changes nothing. Returns 0 on every path.
\<close>

definition CurlSocketCallback :: "curl_socket_t \<Rightarrow> int \<Rightarrow> nat option \<Rightarrow> engine \<Rightarrow> engine" where
  "CurlSocketCallback sock action socketdata s =
     (if action = CURL_POLL_IN \<or> action = CURL_POLL_OUT \<or> action = CURL_POLL_INOUT then
        (case (case socketdata of Some p \<Rightarrow> (p, s) | None \<Rightarrow> new_CurlContext sock s) of
           (context, s1) \<Rightarrow>
             (let s2 = curl_multi_assign sock (Some context) s1;
                  events0 = 0;
                  events1 = (if action \<noteq> CURL_POLL_IN then events0 OR UV_WRITABLE else events0);
                  events2 = (if action \<noteq> CURL_POLL_OUT then events1 OR UV_READABLE else events1)
              in uv_poll_start context events2 s2))
      else if action = CURL_POLL_REMOVE then
        (case socketdata of
           Some context \<Rightarrow> curl_multi_assign sock None (Destroy context s)
         | None \<Rightarrow> s)
      else s)"

subsection \<open>libcurl driving the transfers\<close>

text \<open>
  What libcurl does inside \<open>curl_multi_socket_action\<close> is outside extension.cpp. As far
  as the engine can see it, one call makes a sequence of callbacks into the engine and
  finishes some transfers: it calls the socket function (with the pointer assigned to
  that socket), calls the timer function, or queues a message for an easy handle that
  is in the multi handle and has no message queued yet. The sequence is a parameter of
  the model. Callbacks that libcurl makes from inside \<open>curl_multi_add_handle\<close> and
  \<open>curl_multi_remove_handle\<close> are not modelled.
\<close>

datatype curl_callback =
    SocketFunction curl_socket_t int
  | TimerFunction long
  | Finished CURLMSG CURL

fun curl_calls :: "curl_callback \<Rightarrow> engine \<Rightarrow> engine" where
  "curl_calls (SocketFunction sock action) s =
     CurlSocketCallback sock action (assigned (Curl s) sock) s"
| "curl_calls (TimerFunction timeout_ms) s = CurlTimeoutCallback timeout_ms s"
| "curl_calls (Finished m h) s =
     (if h \<in> set (handles (Curl s)) \<and> h \<notin> set (map easy_handle (messages (Curl s)))
      then s\<lparr>Curl := (Curl s)\<lparr>messages := messages (Curl s) @ [\<lparr>msg = m, easy_handle = h\<rparr>]\<rparr>\<rparr>
      else s)"

definition curl_multi_socket_action ::
  "curl_callback list \<Rightarrow> curl_socket_t \<Rightarrow> int \<Rightarrow> engine \<Rightarrow> engine" where
  "curl_multi_socket_action reaction sock flags s =
     fold curl_calls reaction (emit (EvMultiSocketAction sock flags) s)"

definition PerformRequests :: "curl_callback list \<Rightarrow> engine \<Rightarrow> engine" where
  "PerformRequests reaction s =
     CheckCompletedRequests (curl_multi_socket_action reaction CURL_SOCKET_TIMEOUT 0 s)"

text \<open>\<open>handle->data\<close> is the address \<open>p\<close> of the watch context of the poll handle.\<close>

definition CurlSocketActivity :: "curl_callback list \<Rightarrow> nat \<Rightarrow> int \<Rightarrow> engine \<Rightarrow> engine" where
  "CurlSocketActivity reaction p events s =
     (case contexts s p of
        None \<Rightarrow> s\<lparr>faulted := True\<rparr>
      | Some context \<Rightarrow>
          (let flags0 = 0;
               flags1 = (if events AND UV_READABLE \<noteq> 0 then flags0 OR CURL_CSELECT_IN else flags0);
               flags2 = (if events AND UV_WRITABLE \<noteq> 0 then flags1 OR CURL_CSELECT_OUT else flags1)
           in CheckCompletedRequests
                (curl_multi_socket_action reaction (socket context) flags2 s)))"

definition AsyncStopLoop :: "engine \<Rightarrow> engine" where
  "AsyncStopLoop s = emit EvStop (s\<lparr>loop_running := False\<rparr>)"

subsection \<open>The host side\<close>

definition FrameHook :: "engine \<Rightarrow> engine" where
  "FrameHook s =
     (case q_Empty RequestQ s of
        (e1, s1) \<Rightarrow>
          (let s2 = (if \<not> e1 then uv_async_send AsyncPerformRequestsH s1 else s1)
           in case q_Empty CompletedQ s2 of
                (e2, s3) \<Rightarrow>
                  if \<not> e2 then
                    (let s4 = q_Lock CompletedQ s3
                     in case q_Pop CompletedQ s4 of
                          None \<Rightarrow> s4\<lparr>faulted := True\<rparr>
                        | Some (context, s5) \<Rightarrow>
                            (let s6 = call_OnCompleted context s5;
                                 s7 = delete_context context s6
                             in q_Unlock CompletedQ s7))
                  else s3))"

definition AddRequestToQueue :: "IHTTPContext \<Rightarrow> engine \<Rightarrow> engine" where
  "AddRequestToQueue context s =
     (let s1 = q_Lock RequestQ s;
          s2 = q_Push RequestQ context s1
      in q_Unlock RequestQ s2)"

text \<open>
  The globals before \<open>SDK_OnLoad\<close>: static initialisation (empty queues, the flag
  \<open>unloaded\<close> false).
\<close>

definition globals0 :: engine where
  "globals0 =
     \<lparr>RequestQueue = \<lparr>items = [], locked = False\<rparr>,
      CompletedRequestQueue = \<lparr>items = [], locked = False\<rparr>,
      Curl = \<lparr>handles = [], messages = [], assigned = Map.empty\<rparr>,
      Timeout = \<lparr>armed = False, timer_timeout = 0, timer_repeat = 0\<rparr>,
      async_pending = (\<lambda>a. False),
      loop_running = False,
      frame_hook = False,
      contexts = Map.empty,
      next_context = 0,
      frame_actions = [],
      unloaded = False,
      faulted = False,
      trace = []\<rparr>"

text \<open>
  \<open>SDK_OnLoad\<close>, as far as the engine is concerned (the registration of natives and
  handle types and the CA bundle path are left out). \<open>curl_global_init_ok\<close> is whether
  \<open>curl_global_init\<close> returned \<open>CURLE_OK\<close>; the result is the return value and the state.
\<close>

definition SDK_OnLoad :: "bool \<Rightarrow> engine \<Rightarrow> bool \<times> engine" where
  "SDK_OnLoad curl_global_init_ok s =
     (let s1 = emit EvGlobalInit s
      in if \<not> curl_global_init_ok then (False, s1)
         else
           (let s2 = emit EvMultiInit s1;
                s3 = emit EvThreadCreate (s2\<lparr>loop_running := True\<rparr>);
                s4 = emit EvAddGameFrameHook (s3\<lparr>frame_hook := True\<rparr>);
                s5 = emit EvEventLoopLoad s4;
                s6 = emit (EvUnloadedStore False) (s5\<lparr>unloaded := False\<rparr>)
            in (True, s6)))"

text \<open>
  \<open>uv_thread_join\<close> returns when the reactor thread has left \<open>uv_run\<close>: the reactor
  handles the pending stop wake (\<open>AsyncStopLoop\<close>) and exits. Without a pending stop
  wake a running reactor never exits and the join does not return: \<open>None\<close>.
\<close>

definition uv_thread_join :: "engine \<Rightarrow> engine option" where
  "uv_thread_join s =
     (if \<not> loop_running s then Some (emit EvThreadJoin s)
      else if async_pending s AsyncStopLoopH then
        Some (emit EvThreadJoin
               (AsyncStopLoop (s\<lparr>async_pending := (async_pending s)(AsyncStopLoopH := False)\<rparr>)))
      else None)"

text \<open>
  The calls of \<open>SDK_OnUnload\<close>, in the order of the source. The cleanup of the multi
  handle is called as \<open>curl_multi_cleanup(&g_Curl)\<close>; what libcurl and libuv do inside
  \<open>curl_multi_cleanup\<close> and \<open>uv_loop_close\<close> is not modelled.
\<close>

definition SDK_OnUnload :: "engine \<Rightarrow> engine option" where
  "SDK_OnUnload s =
     (case uv_thread_join (uv_async_send AsyncStopLoopH s) of
        None \<Rightarrow> None
      | Some s2 \<Rightarrow>
          (let s3 = emit EvLoopClose s2;
               s4 = emit (EvMultiCleanup AddressOfMultiHandle) s3;
               s5 = emit EvGlobalCleanup s4;
               s6 = emit (EvRemoveType htHTTPRequest) s5;
               s7 = emit (EvRemoveType htHTTPResponse) s6;
               s8 = emit (EvRemoveType htJSON) s7;
               s9 = emit (EvRemoveType htJSONObjectKeys) s8;
               s10 = emit (EvRemoveType htWebSocket) s9;
               s11 = emit EvRemoveGameFrameHook (s10\<lparr>frame_hook := False\<rparr>);
               s12 = emit EvEventLoopUnload s11
           in Some (emit (EvUnloadedStore True) (s12\<lparr>unloaded := True\<rparr>))))"

subsection \<open>The relay to the host thread\<close>

definition AddFrameAction :: "frame_action \<Rightarrow> engine \<Rightarrow> engine" where
  "AddFrameAction a s = emit (EvAddFrameAction a) (s\<lparr>frame_actions := frame_actions s @ [a]\<rparr>)"

definition log_msg :: "string \<Rightarrow> engine \<Rightarrow> engine" where
  "log_msg m s =
     (let s1 = (if \<not> unloaded s then emit (EvHostLogMessage m) s else s)
      in emit (EvFree m) s1)"

definition log_err :: "string \<Rightarrow> engine \<Rightarrow> engine" where
  "log_err m s =
     (let s1 = (if \<not> unloaded s then emit (EvHostLogError m) s else s)
      in emit (EvFree m) s1)"

text \<open>
  \<open>formatted\<close> is the text \<open>vsnprintf\<close> produces from the format and its arguments; the
  buffer of 3072 bytes keeps at most 3071 characters of it.
\<close>

definition LogMessage :: "string \<Rightarrow> engine \<Rightarrow> engine" where
  "LogMessage formatted s = AddFrameAction (LogMsgAction (take 3071 formatted)) s"

definition LogError :: "string \<Rightarrow> engine \<Rightarrow> engine" where
  "LogError formatted s = AddFrameAction (LogErrAction (take 3071 formatted)) s"

text \<open>The callback is invoked, then released when the \<open>unique_ptr\<close> goes out of scope.\<close>

definition execute_cb :: "nat \<Rightarrow> engine \<Rightarrow> engine" where
  "execute_cb cb s = emit (EvReleaseCallback cb) (emit (EvInvokeCallback cb) s)"

definition Defer :: "nat \<Rightarrow> engine \<Rightarrow> engine" where
  "Defer callback s = AddFrameAction (ExecuteCbAction callback) s"

fun run_frame_action :: "frame_action \<Rightarrow> engine \<Rightarrow> engine" where
  "run_frame_action (LogMsgAction m) s = log_msg m s"
| "run_frame_action (LogErrAction m) s = log_err m s"
| "run_frame_action (ExecuteCbAction cb) s = execute_cb cb s"

subsection \<open>The two threads, one handler at a time\<close>

text \<open>
  A run of the engine is a sequence of handler executions. The host thread submits a
  context, runs a tick (while the frame hook is installed), runs the oldest queued
  frame action, or unloads the extension. The reactor thread, while its loop runs,
  handles a pending "new work" wake (libuv clears the pending flag before the
  callback), an expiry of the armed timer (a timer with repeat 0 is stopped before its
  callback) or a poll event of a watch context that is polling. \<open>LogMessage\<close>,
  \<open>LogError\<close> and \<open>Defer\<close> may be called at any point.
\<close>

datatype action =
    Submit IHTTPContext
  | Tick
  | HostFrameAction
  | Unload
  | Wake
  | TimerExpires "curl_callback list"
  | SocketEvent nat int "curl_callback list"
  | CallLogMessage string
  | CallLogError string
  | CallDefer nat

fun perform :: "action \<Rightarrow> engine \<Rightarrow> engine" where
  "perform (Submit c) s = AddRequestToQueue c s"
| "perform Tick s = (if frame_hook s then FrameHook s else s)"
| "perform HostFrameAction s =
     (case frame_actions s of
        [] \<Rightarrow> s
      | a # rest \<Rightarrow> run_frame_action a (s\<lparr>frame_actions := rest\<rparr>))"
| "perform Unload s = (case SDK_OnUnload s of None \<Rightarrow> s | Some s' \<Rightarrow> s')"
| "perform Wake s =
     (if loop_running s \<and> async_pending s AsyncPerformRequestsH then
        AsyncPerformRequests
          (s\<lparr>async_pending := (async_pending s)(AsyncPerformRequestsH := False)\<rparr>)
      else s)"
| "perform (TimerExpires reaction) s =
     (if loop_running s \<and> armed (Timeout s) then
        PerformRequests reaction
          (s\<lparr>Timeout := (Timeout s)\<lparr>armed := (timer_repeat (Timeout s) \<noteq> 0)\<rparr>\<rparr>)
      else s)"
| "perform (SocketEvent p events reaction) s =
     (if loop_running s \<and> (case contexts s p of None \<Rightarrow> False | Some c \<Rightarrow> polling c \<noteq> None)
      then CurlSocketActivity reaction p events s
      else s)"
| "perform (CallLogMessage m) s = LogMessage m s"
| "perform (CallLogError m) s = LogError m s"
| "perform (CallDefer cb) s = Defer cb s"

definition run :: "action list \<Rightarrow> engine \<Rightarrow> engine" where
  "run as s = fold perform as s"

section \<open>Reading a run\<close>

subsection \<open>Projections of a trace\<close>

text \<open>
  The events a handler appended (the trace after it without the trace before it), and
  what a list of events says about one kind of call: the handles added to the multi
  handle, the contexts popped from and pushed to a queue, the contexts deleted, the
  contexts whose \<open>OnCompleted\<close> was called, the messages handed to the host's logger, the
  wakes sent to the reactor. \<open>callback_event\<close> marks the calls that \<open>CurlSocketCallback\<close>
  and \<open>CurlTimeoutCallback\<close> make.
\<close>

definition new_events :: "engine \<Rightarrow> engine \<Rightarrow> event list" where
  "new_events s s' = drop (length (trace s)) (trace s')"

fun admitted_handles :: "event list \<Rightarrow> CURL list" where
  "admitted_handles [] = []"
| "admitted_handles (EvMultiAddHandle h # es) = h # admitted_handles es"
| "admitted_handles (e # es) = admitted_handles es"

fun popped_from :: "queue_id \<Rightarrow> event list \<Rightarrow> IHTTPContext list" where
  "popped_from qid [] = []"
| "popped_from qid (EvPop qid' c # es) =
     (if qid' = qid then c # popped_from qid es else popped_from qid es)"
| "popped_from qid (e # es) = popped_from qid es"

fun pushed_to :: "queue_id \<Rightarrow> event list \<Rightarrow> IHTTPContext list" where
  "pushed_to qid [] = []"
| "pushed_to qid (EvPush qid' c # es) =
     (if qid' = qid then c # pushed_to qid es else pushed_to qid es)"
| "pushed_to qid (e # es) = pushed_to qid es"

fun deleted_contexts :: "event list \<Rightarrow> IHTTPContext list" where
  "deleted_contexts [] = []"
| "deleted_contexts (EvDelete c # es) = c # deleted_contexts es"
| "deleted_contexts (e # es) = deleted_contexts es"

fun completions :: "event list \<Rightarrow> IHTTPContext list" where
  "completions [] = []"
| "completions (EvOnCompleted c # es) = c # completions es"
| "completions (e # es) = completions es"

fun host_logged :: "event list \<Rightarrow> string list" where
  "host_logged [] = []"
| "host_logged (EvHostLogMessage m # es) = m # host_logged es"
| "host_logged (EvHostLogError m # es) = m # host_logged es"
| "host_logged (e # es) = host_logged es"

fun wakes_sent :: "event list \<Rightarrow> uv_async list" where
  "wakes_sent [] = []"
| "wakes_sent (EvAsyncSend a # es) = a # wakes_sent es"
| "wakes_sent (e # es) = wakes_sent es"

fun callback_event :: "event \<Rightarrow> bool" where
  "callback_event EvTimerStop = True"
| "callback_event (EvTimerStart timeout repeat) = True"
| "callback_event (EvNewCurlContext p sock) = True"
| "callback_event (EvDestroyCurlContext p) = True"
| "callback_event (EvPollStart p events) = True"
| "callback_event (EvPollStop p) = True"
| "callback_event (EvMultiAssign sock p) = True"
| "callback_event e = False"

subsection \<open>The calls of the handlers, as lists\<close>

text \<open>
  \<open>drained\<close> gives the contexts one run of the admission loop pops, from the counter's
  value and the pending contexts: popping goes on while the counter is below the cap, and
  only a context whose \<open>InitCurl\<close> succeeds raises the counter. \<open>admission_events\<close> are the
  calls made for one popped context. \<open>done_handles\<close> are the easy handles of the messages
  of kind \<open>CURLMSG_DONE\<close>, in the order \<open>curl_multi_info_read\<close> returns them, and
  \<open>completion_events\<close> the calls made for one message. \<open>wake_events\<close> is what \<open>FrameHook\<close>
  does first: the emptiness check of the pending queue and, when it is not empty, the
  wake of the reactor. \<open>unload_events\<close> are the calls of \<open>SDK_OnUnload\<close>, in order.
\<close>

fun drained :: "nat \<Rightarrow> IHTTPContext list \<Rightarrow> IHTTPContext list" where
  "drained count [] = []"
| "drained count (c # cs) =
     (if count < MAX_PROCESS then c # drained (if InitCurl c then count + 1 else count) cs
      else [])"

definition admission_events :: "IHTTPContext \<Rightarrow> event list" where
  "admission_events c =
     [EvEmpty RequestQ, EvPop RequestQ c, EvInitCurl c,
      if InitCurl c then EvMultiAddHandle (curl c) else EvDelete c]"

definition done_handles :: "CURLMsg list \<Rightarrow> CURL list" where
  "done_handles ms = map easy_handle (filter (\<lambda>m. msg m = CURLMSG_DONE) ms)"

definition completion_events :: "CURLMsg \<Rightarrow> event list" where
  "completion_events m =
     EvMultiInfoRead #
       (if msg m \<noteq> CURLMSG_DONE then []
        else [EvMultiRemoveHandle (easy_handle m), EvLock CompletedQ,
              EvPush CompletedQ (CURLINFO_PRIVATE (easy_handle m)), EvUnlock CompletedQ])"

definition wake_events :: "engine \<Rightarrow> event list" where
  "wake_events s =
     EvEmpty RequestQ #
       (if Empty (RequestQueue s) then [] else [EvAsyncSend AsyncPerformRequestsH])"

definition unload_events :: "engine \<Rightarrow> event list" where
  "unload_events s =
     EvAsyncSend AsyncStopLoopH # (if loop_running s then [EvStop] else []) @
     [EvThreadJoin, EvLoopClose, EvMultiCleanup AddressOfMultiHandle, EvGlobalCleanup,
      EvRemoveType htHTTPRequest, EvRemoveType htHTTPResponse, EvRemoveType htJSON,
      EvRemoveType htJSONObjectKeys, EvRemoveType htWebSocket,
      EvRemoveGameFrameHook, EvEventLoopUnload, EvUnloadedStore True]"

subsection \<open>Notions the properties are stated with\<close>

text \<open>
  \<open>interest\<close> is the interest a poll request asks for, in the words of the
  specification: readable unless the request is write-only (\<open>CURL_POLL_OUT\<close>), writable
  unless it is read-only (\<open>CURL_POLL_IN\<close>). \<open>reaction_of\<close> is the sequence of callbacks
  libcurl makes during a step of the reactor. \<open>initialised_only\<close>: only contexts whose
  \<open>InitCurl\<close> succeeded are in flight (in the active set, in a message of libcurl, in the
  completed queue, or among the contexts whose \<open>OnCompleted\<close> was called). \<open>torn_down\<close> is
  the state \<open>SDK_OnUnload\<close> leaves. \<open>ticks\<close> counts the ticks of a run.

  The queue calls of a trace are read against the locks held, starting from \<open>held\<close>:
  \<open>lock_scoped\<close> holds when every \<open>Empty\<close>, \<open>Push\<close> and \<open>Pop\<close> is made while the lock of its
  queue is held; \<open>mutations_locked\<close> asks this of \<open>Push\<close> and \<open>Pop\<close> only; \<open>pops_checked\<close>
  holds when every \<open>Pop\<close> comes after an \<open>Empty\<close> check of its queue made under the lock,
  with no unlock and no other pop in between.
\<close>

definition interest :: "int \<Rightarrow> int" where
  "interest action =
     (if action = CURL_POLL_OUT then 0 else UV_READABLE) OR
     (if action = CURL_POLL_IN then 0 else UV_WRITABLE)"

fun reaction_of :: "action \<Rightarrow> curl_callback list" where
  "reaction_of (TimerExpires r) = r"
| "reaction_of (SocketEvent p events r) = r"
| "reaction_of a = []"

fun is_SocketFunction :: "curl_callback \<Rightarrow> bool" where
  "is_SocketFunction (SocketFunction sock action) = True"
| "is_SocketFunction cb = False"

definition initialised_only :: "engine \<Rightarrow> bool" where
  "initialised_only s \<longleftrightarrow>
     (\<forall>h \<in> set (handles (Curl s)). InitCurl (CURLINFO_PRIVATE h)) \<and>
     (\<forall>m \<in> set (messages (Curl s)). InitCurl (CURLINFO_PRIVATE (easy_handle m))) \<and>
     (\<forall>c \<in> set (items (CompletedRequestQueue s)). InitCurl c) \<and>
     (\<forall>c \<in> set (completions (trace s)). InitCurl c)"

definition torn_down :: "engine \<Rightarrow> bool" where
  "torn_down s \<longleftrightarrow> unloaded s \<and> \<not> loop_running s \<and> \<not> frame_hook s"

definition ticks :: "action list \<Rightarrow> nat" where
  "ticks as = length (filter (\<lambda>a. a = Tick) as)"

definition no_locks :: "queue_id \<Rightarrow> bool" where
  "no_locks q = False"

fun lock_scoped :: "(queue_id \<Rightarrow> bool) \<Rightarrow> event list \<Rightarrow> bool" where
  "lock_scoped held [] = True"
| "lock_scoped held (EvLock q # es) = lock_scoped (held(q := True)) es"
| "lock_scoped held (EvUnlock q # es) = lock_scoped (held(q := False)) es"
| "lock_scoped held (EvEmpty q # es) = (held q \<and> lock_scoped held es)"
| "lock_scoped held (EvPush q c # es) = (held q \<and> lock_scoped held es)"
| "lock_scoped held (EvPop q c # es) = (held q \<and> lock_scoped held es)"
| "lock_scoped held (e # es) = lock_scoped held es"

fun mutations_locked :: "(queue_id \<Rightarrow> bool) \<Rightarrow> event list \<Rightarrow> bool" where
  "mutations_locked held [] = True"
| "mutations_locked held (EvLock q # es) = mutations_locked (held(q := True)) es"
| "mutations_locked held (EvUnlock q # es) = mutations_locked (held(q := False)) es"
| "mutations_locked held (EvPush q c # es) = (held q \<and> mutations_locked held es)"
| "mutations_locked held (EvPop q c # es) = (held q \<and> mutations_locked held es)"
| "mutations_locked held (e # es) = mutations_locked held es"

fun pops_checked :: "(queue_id \<Rightarrow> bool) \<Rightarrow> (queue_id \<Rightarrow> bool) \<Rightarrow> event list \<Rightarrow> bool" where
  "pops_checked held checked [] = True"
| "pops_checked held checked (EvLock q # es) =
     pops_checked (held(q := True)) (checked(q := False)) es"
| "pops_checked held checked (EvUnlock q # es) =
     pops_checked (held(q := False)) (checked(q := False)) es"
| "pops_checked held checked (EvEmpty q # es) = pops_checked held (checked(q := held q)) es"
| "pops_checked held checked (EvPop q c # es) =
     (checked q \<and> pops_checked held (checked(q := False)) es)"
| "pops_checked held checked (e # es) = pops_checked held checked es"

section \<open>Concrete states\<close>

text \<open>
  States the properties below are evaluated on: the engine after a successful load,
  with contexts submitted to it, with finished transfers, with completed contexts, with
  a socket being watched, and after unloading.
\<close>

definition request :: "nat \<Rightarrow> bool \<Rightarrow> IHTTPContext" where
  "request i ok = \<lparr>ident = i, init_ok = ok\<rparr>"

definition loaded :: engine where
  "loaded = snd (SDK_OnLoad True globals0)"

definition submitted :: "IHTTPContext list \<Rightarrow> engine" where
  "submitted cs = fold AddRequestToQueue cs loaded"

definition twelve_good :: "IHTTPContext list" where
  "twelve_good = map (\<lambda>i. request i True) [0, 1, 2, 3, 4, 5, 6, 7, 8, 9, 10, 11]"

definition twelve_bad :: "IHTTPContext list" where
  "twelve_bad = map (\<lambda>i. request i False) [0, 1, 2, 3, 4, 5, 6, 7, 8, 9, 10, 11]"

definition good_bad_good :: "IHTTPContext list" where
  "good_bad_good =
     request 0 True #
     map (\<lambda>i. request i False) [1, 2, 3, 4, 5, 6, 7, 8, 9, 10] @ [request 11 True]"

definition two_finished :: engine where
  "two_finished =
     loaded\<lparr>Curl := (Curl loaded)
       \<lparr>handles := [curl (request 1 True), curl (request 2 True), curl (request 3 True)],
        messages := [\<lparr>msg = CURLMSG_NONE, easy_handle = curl (request 1 True)\<rparr>,
                     \<lparr>msg = CURLMSG_DONE, easy_handle = curl (request 3 True)\<rparr>,
                     \<lparr>msg = CURLMSG_DONE, easy_handle = curl (request 2 True)\<rparr>]\<rparr>\<rparr>"

definition three_completed :: engine where
  "three_completed =
     loaded\<lparr>CompletedRequestQueue :=
       \<lparr>items = [request 1 True, request 2 True, request 3 True], locked = False\<rparr>\<rparr>"

definition watching :: engine where
  "watching = CurlSocketCallback 5 CURL_POLL_IN None loaded"

definition mixed :: engine where
  "mixed = submitted [request 1 True, request 2 False, request 3 True]"

definition deferred_then_unloaded :: engine where
  "deferred_then_unloaded = run [CallDefer 7, CallLogMessage ''done'', Unload] loaded"

definition waking :: engine where
  "waking = run [Submit (request 1 True), Tick] loaded"

section \<open>The admission loop, characterised\<close>

lemma AsyncPerformRequests_loop_result:
  "items (RequestQueue s) = xs \<Longrightarrow>
   AsyncPerformRequests_loop count s =
     s\<lparr>RequestQueue := (RequestQueue s)\<lparr>items := drop (length (drained count xs)) xs\<rparr>,
       Curl := (Curl s)\<lparr>handles := handles (Curl s) @ map curl (filter InitCurl (drained count xs))\<rparr>,
       trace := trace s @ concat (map admission_events (drained count xs)) @ [EvEmpty RequestQ]\<rparr>"
proof (induction xs arbitrary: count s)
  case Nil
  then show ?case
    by (subst AsyncPerformRequests_loop.simps) (simp add: q_Empty_def Empty_def emit_def)
next
  case (Cons c cs)
  show ?case
  proof (cases "count < MAX_PROCESS")
    case False
    with Cons.prems show ?thesis
      by (subst AsyncPerformRequests_loop.simps) (simp add: q_Empty_def Empty_def emit_def)
  next
    case True
    define s2 where "s2 = s\<lparr>RequestQueue := (RequestQueue s)\<lparr>items := cs\<rparr>,
        trace := trace s @ [EvEmpty RequestQ, EvPop RequestQ c, EvInitCurl c]\<rparr>"
    show ?thesis
    proof (cases "InitCurl c")
      case ok: True
      define s' where "s' = curl_multi_add_handle (curl c) s2"
      have "items (RequestQueue s') = cs" by (simp add: s'_def s2_def)
      note IH = Cons.IH [OF this, of "count + 1"]
      have step: "AsyncPerformRequests_loop count s = AsyncPerformRequests_loop (count + 1) s'"
        using Cons.prems True ok
        by (subst AsyncPerformRequests_loop.simps)
           (simp add: s'_def s2_def q_Empty_def Empty_def q_Pop_def Pop_def call_InitCurl_def emit_def)
      have ev: "admission_events c =
          [EvEmpty RequestQ, EvPop RequestQ c, EvInitCurl c, EvMultiAddHandle (curl c)]"
        using ok by (simp add: admission_events_def)
      show ?thesis unfolding step IH using True ok
        by (simp add: s'_def s2_def emit_def curl_multi_add_handle_def ev)
    next
      case bad: False
      define s' where "s' = delete_context c s2"
      have "items (RequestQueue s') = cs" by (simp add: s'_def s2_def)
      note IH = Cons.IH [OF this, of "count"]
      have step: "AsyncPerformRequests_loop count s = AsyncPerformRequests_loop count s'"
        using Cons.prems True bad
        by (subst AsyncPerformRequests_loop.simps)
           (simp add: s'_def s2_def q_Empty_def Empty_def q_Pop_def Pop_def call_InitCurl_def emit_def)
      have ev: "admission_events c =
          [EvEmpty RequestQ, EvPop RequestQ c, EvInitCurl c, EvDelete c]"
        using bad by (simp add: admission_events_def)
      show ?thesis unfolding step IH using True bad
        by (simp add: s'_def s2_def emit_def delete_context_def ev)
    qed
  qed
qed

lemma AsyncPerformRequests_result:
  "AsyncPerformRequests s =
     s\<lparr>RequestQueue := \<lparr>items = drop (length (drained 0 (items (RequestQueue s)))) (items (RequestQueue s)),
                         locked = False\<rparr>,
       Curl := (Curl s)\<lparr>handles := handles (Curl s) @
                 map curl (filter InitCurl (drained 0 (items (RequestQueue s))))\<rparr>,
       trace := trace s @ EvLock RequestQ #
                 concat (map admission_events (drained 0 (items (RequestQueue s)))) @
                 [EvEmpty RequestQ, EvUnlock RequestQ]\<rparr>"
proof -
  have "items (RequestQueue (q_Lock RequestQ s)) = items (RequestQueue s)"
    by (simp add: q_Lock_def Lock_def emit_def)
  from AsyncPerformRequests_loop_result [OF this, of 0] show ?thesis
    by (simp add: AsyncPerformRequests_def q_Unlock_def Unlock_def q_Lock_def Lock_def emit_def)
qed

lemma drained_prefix: "take (length (drained n xs)) xs = drained n xs"
  by (induction xs arbitrary: n) auto

lemma drained_split: "drained n xs @ drop (length (drained n xs)) xs = xs"
  by (metis append_take_drop_id drained_prefix)

lemma drained_admits:
  "filter InitCurl (drained n xs) = take (MAX_PROCESS - n) (filter InitCurl xs)"
proof (induction xs arbitrary: n)
  case Nil
  show ?case by simp
next
  case (Cons c cs)
  show ?case
  proof (cases "n < MAX_PROCESS")
    case True
    then obtain k where k: "MAX_PROCESS - n = Suc k" by (metis Suc_diff_Suc)
    then have "MAX_PROCESS - (n + 1) = k" by simp
    with True k show ?thesis by (simp add: Cons.IH)
  next
    case False
    then show ?thesis by simp
  qed
qed

lemma drained_stops:
  "drop (length (drained n xs)) xs = [] \<or> MAX_PROCESS \<le> n + length (filter InitCurl (drained n xs))"
proof (induction xs arbitrary: n)
  case Nil
  show ?case by simp
next
  case (Cons c cs)
  from Cons.IH [of "if InitCurl c then n + 1 else n"] show ?case by auto
qed

lemma drained_cap_last:
  "n < MAX_PROCESS \<Longrightarrow> MAX_PROCESS \<le> n + length (filter InitCurl (drained n xs)) \<Longrightarrow>
     drained n xs \<noteq> [] \<and> InitCurl (last (drained n xs))"
proof (induction xs arbitrary: n)
  case Nil
  then show ?case by simp
next
  case (Cons c cs)
  show ?case
  proof (cases "InitCurl c")
    case True
    show ?thesis
    proof (cases "n + 1 < MAX_PROCESS")
      case True
      with Cons.IH [of "n + 1"] Cons.prems \<open>InitCurl c\<close> show ?thesis by (auto split: if_splits)
    next
      case False
      with Cons.prems \<open>InitCurl c\<close> have "drained n (c # cs) = [c]" by (cases cs) auto
      with \<open>InitCurl c\<close> show ?thesis by simp
    qed
  next
    case False
    with Cons.IH [of n] Cons.prems show ?thesis by (auto split: if_splits)
  qed
qed

lemma drained_all_fail:
  "\<forall>c \<in> set xs. \<not> InitCurl c \<Longrightarrow> n < MAX_PROCESS \<Longrightarrow> drained n xs = xs"
  by (induction xs arbitrary: n) auto

lemma admitted_handles_append [simp]:
  "admitted_handles (es @ fs) = admitted_handles es @ admitted_handles fs"
  by (induction es rule: admitted_handles.induct) auto

lemma popped_from_append [simp]:
  "popped_from q (es @ fs) = popped_from q es @ popped_from q fs"
  by (induction q es rule: popped_from.induct) auto

lemma pushed_to_append [simp]:
  "pushed_to q (es @ fs) = pushed_to q es @ pushed_to q fs"
  by (induction q es rule: pushed_to.induct) auto

lemma deleted_contexts_append [simp]:
  "deleted_contexts (es @ fs) = deleted_contexts es @ deleted_contexts fs"
  by (induction es rule: deleted_contexts.induct) auto

lemma completions_append [simp]:
  "completions (es @ fs) = completions es @ completions fs"
  by (induction es rule: completions.induct) auto

lemma admitted_admission_events:
  "admitted_handles (concat (map admission_events cs)) = map curl (filter InitCurl cs)"
  by (induction cs) (auto simp: admission_events_def)

lemma popped_admission_events:
  "popped_from RequestQ (concat (map admission_events cs)) = cs"
  by (induction cs) (auto simp: admission_events_def)

lemma popped_completed_admission_events:
  "popped_from CompletedQ (concat (map admission_events cs)) = []"
  by (induction cs) (auto simp: admission_events_def)

lemma pushed_admission_events:
  "pushed_to q (concat (map admission_events cs)) = []"
  by (induction cs) (auto simp: admission_events_def)

lemma deleted_admission_events:
  "deleted_contexts (concat (map admission_events cs)) = filter (\<lambda>c. \<not> InitCurl c) cs"
  by (induction cs) (auto simp: admission_events_def)

lemma completions_admission_events:
  "completions (concat (map admission_events cs)) = []"
  by (induction cs) (auto simp: admission_events_def)

lemma new_events_AsyncPerformRequests:
  "new_events s (AsyncPerformRequests s) =
     EvLock RequestQ # concat (map admission_events (drained 0 (items (RequestQueue s)))) @
       [EvEmpty RequestQ, EvUnlock RequestQ]"
  by (simp add: new_events_def AsyncPerformRequests_result)

section \<open>The completion check, characterised\<close>

lemma CheckCompletedRequests_result:
  "messages (Curl s) = ms \<Longrightarrow>
   CheckCompletedRequests s =
     s\<lparr>CompletedRequestQueue := (CompletedRequestQueue s)
          \<lparr>items := items (CompletedRequestQueue s) @ map CURLINFO_PRIVATE (done_handles ms),
           locked := (if done_handles ms = [] then locked (CompletedRequestQueue s) else False)\<rparr>,
       Curl := (Curl s)\<lparr>handles := fold remove1 (done_handles ms) (handles (Curl s)), messages := []\<rparr>,
       trace := trace s @ concat (map completion_events ms) @ [EvMultiInfoRead]\<rparr>"
proof (induction ms arbitrary: s)
  case Nil
  then show ?case
    by (subst CheckCompletedRequests.simps)
       (simp add: curl_multi_info_read_def emit_def done_handles_def)
next
  case (Cons m ms)
  show ?case
  proof (cases "msg m = CURLMSG_DONE")
    case False
    define s' where "s' = s\<lparr>Curl := (Curl s)\<lparr>messages := ms\<rparr>, trace := trace s @ [EvMultiInfoRead]\<rparr>"
    have "messages (Curl s') = ms" by (simp add: s'_def)
    note IH = Cons.IH [OF this]
    have step: "CheckCompletedRequests s = CheckCompletedRequests s'"
      using Cons.prems False
      by (subst CheckCompletedRequests.simps) (simp add: s'_def curl_multi_info_read_def emit_def)
    have ev: "completion_events m = [EvMultiInfoRead]"
      using False by (simp add: completion_events_def)
    show ?thesis unfolding step IH using False
      by (simp add: s'_def ev done_handles_def)
  next
    case True
    define s' where "s' = s\<lparr>CompletedRequestQueue :=
          (CompletedRequestQueue s)\<lparr>items := items (CompletedRequestQueue s) @ [CURLINFO_PRIVATE (easy_handle m)], locked := False\<rparr>,
        Curl := (Curl s)\<lparr>handles := remove1 (easy_handle m) (handles (Curl s)), messages := ms\<rparr>,
        trace := trace s @ completion_events m\<rparr>"
    have "messages (Curl s') = ms" by (simp add: s'_def)
    note IH = Cons.IH [OF this]
    have ev: "completion_events m =
        [EvMultiInfoRead, EvMultiRemoveHandle (easy_handle m), EvLock CompletedQ,
         EvPush CompletedQ (CURLINFO_PRIVATE (easy_handle m)), EvUnlock CompletedQ]"
      using True by (simp add: completion_events_def)
    have "q_Unlock CompletedQ (q_Push CompletedQ (CURLINFO_PRIVATE (easy_handle m))
            (q_Lock CompletedQ (curl_multi_remove_handle (easy_handle m)
               (s\<lparr>Curl := (Curl s)\<lparr>messages := ms\<rparr>, trace := trace s @ [EvMultiInfoRead]\<rparr>)))) = s'"
      using True
      by (intro engine.equality CURLM.equality LockedQueue.equality)
         (simp_all add: s'_def emit_def curl_multi_remove_handle_def
            q_Lock_def q_Push_def q_Unlock_def Lock_def Push_def Unlock_def ev)
    then have step: "CheckCompletedRequests s = CheckCompletedRequests s'"
      using Cons.prems True
      by (subst CheckCompletedRequests.simps)
         (simp add: curl_multi_info_read_def emit_def Let_def)
    show ?thesis unfolding step IH using True
      by (intro engine.equality CURLM.equality LockedQueue.equality)
         (simp_all add: s'_def done_handles_def ev)
  qed
qed

section \<open>Facts about the concrete states\<close>

lemma AddRequestToQueue_result:
  "AddRequestToQueue c s =
     s\<lparr>RequestQueue := (RequestQueue s)\<lparr>items := items (RequestQueue s) @ [c], locked := False\<rparr>,
       trace := trace s @ [EvLock RequestQ, EvPush RequestQ c, EvUnlock RequestQ]\<rparr>"
  by (simp add: AddRequestToQueue_def q_Lock_def q_Push_def q_Unlock_def Lock_def Push_def
      Unlock_def emit_def)

lemma pending_fold_AddRequestToQueue:
  "items (RequestQueue (fold AddRequestToQueue cs s)) = items (RequestQueue s) @ cs"
  by (induction cs arbitrary: s) (simp_all add: AddRequestToQueue_result)

lemma pending_loaded: "items (RequestQueue loaded) = []"
  by (simp add: loaded_def SDK_OnLoad_def globals0_def emit_def Let_def)

lemma pending_submitted: "items (RequestQueue (submitted cs)) = cs"
  by (simp add: submitted_def pending_fold_AddRequestToQueue pending_loaded)

lemma loaded_eq:
  "loaded = globals0\<lparr>loop_running := True, frame_hook := True,
     trace := [EvGlobalInit, EvMultiInit, EvThreadCreate, EvAddGameFrameHook, EvEventLoopLoad,
               EvUnloadedStore False]\<rparr>"
  by (simp add: loaded_def SDK_OnLoad_def globals0_def emit_def Let_def)

section \<open>Properties of the admission drain\<close>

text \<open>
  C2: one run of \<open>AsyncPerformRequests\<close> (one "new work pending" wake) admits at most
  \<open>MAX_PROCESS\<close> = 10 contexts into the active set, whatever the length of the pending
  queue: the handles it adds are those of the first 10 pending contexts whose
  \<open>InitCurl\<close> succeeds. The loop stops when the pending queue is empty or the cap is
  reached, and as soon as the cap is reached: the last context popped is then the one
  whose admission reached it. What was popped and what is left make up the pending queue
  as it was.
\<close>

theorem wake_admits_at_most_MAX_PROCESS:
  fixes s :: engine
  defines "s' \<equiv> AsyncPerformRequests s"
  defines "admitted \<equiv> admitted_handles (new_events s s')"
  defines "popped \<equiv> popped_from RequestQ (new_events s s')"
  shows "MAX_PROCESS = 10 \<and>
         length admitted \<le> MAX_PROCESS \<and>
         handles (Curl s') = handles (Curl s) @ admitted \<and>
         admitted = map curl (take MAX_PROCESS (filter InitCurl (items (RequestQueue s)))) \<and>
         popped @ items (RequestQueue s') = items (RequestQueue s) \<and>
         (Empty (RequestQueue s') \<or> length admitted = MAX_PROCESS) \<and>
         (length admitted = MAX_PROCESS \<longrightarrow> popped \<noteq> [] \<and> InitCurl (last popped))"
proof -
  let ?xs = "items (RequestQueue s)"
  let ?d = "drained 0 ?xs"
  have adm: "admitted = map curl (filter InitCurl ?d)"
    by (simp add: admitted_def s'_def new_events_AsyncPerformRequests admitted_admission_events)
  have pop: "popped = ?d"
    by (simp add: popped_def s'_def new_events_AsyncPerformRequests popped_admission_events)
  have rest: "items (RequestQueue s') = drop (length ?d) ?xs"
    by (simp add: s'_def AsyncPerformRequests_result)
  have 4: "admitted = map curl (take MAX_PROCESS (filter InitCurl ?xs))"
    by (simp add: adm drained_admits)
  then have 1: "length admitted \<le> MAX_PROCESS" by simp
  have 0: "MAX_PROCESS = 10" by (simp add: MAX_PROCESS_def)
  have 3: "handles (Curl s') = handles (Curl s) @ admitted"
    by (simp add: adm s'_def AsyncPerformRequests_result)
  have 5: "popped @ items (RequestQueue s') = ?xs"
    by (simp add: pop rest drained_split)
  from drained_stops [of 0 ?xs] 1
  have 6: "Empty (RequestQueue s') \<or> length admitted = MAX_PROCESS"
    by (auto simp: rest adm Empty_def split: list.splits)
  have 7: "length admitted = MAX_PROCESS \<longrightarrow> popped \<noteq> [] \<and> InitCurl (last popped)"
    using drained_cap_last [of 0 ?xs] by (simp add: pop adm MAX_PROCESS_def)
  from 0 1 3 4 5 6 7 show ?thesis by blast
qed

theorem wake_admits_at_most_MAX_PROCESS_witness:
  "length (admitted_handles (new_events (submitted twelve_good)
       (AsyncPerformRequests (submitted twelve_good)))) = MAX_PROCESS \<and>
   popped_from RequestQ (new_events (submitted twelve_good)
       (AsyncPerformRequests (submitted twelve_good))) \<noteq> [] \<and>
   InitCurl (last (popped_from RequestQ (new_events (submitted twelve_good)
       (AsyncPerformRequests (submitted twelve_good)))))"
  using wake_admits_at_most_MAX_PROCESS [of "submitted twelve_good"]
  by (simp add: pending_submitted twelve_good_def request_def InitCurl_def MAX_PROCESS_def)

text \<open>
  C9: only contexts whose \<open>InitCurl\<close> succeeds count towards the cap. Of the contexts one
  wake pops, those that succeed are admitted (at most \<open>MAX_PROCESS\<close> of them) and all that
  fail are deleted, without a bound on their number. The drain pops from the front of
  the pending queue and ends only with the queue empty or with \<open>MAX_PROCESS\<close> successes
  popped, the last context popped being then the success that reached the cap: a
  failure never ends it. So when every pending context fails, one wake pops and deletes
  all of them, however many, and admits none.
\<close>

theorem failed_initializations_are_not_counted:
  fixes s :: engine
  defines "s' \<equiv> AsyncPerformRequests s"
  defines "popped \<equiv> popped_from RequestQ (new_events s s')"
  shows "admitted_handles (new_events s s') = map curl (filter InitCurl popped) \<and>
         deleted_contexts (new_events s s') = filter (\<lambda>c. \<not> InitCurl c) popped \<and>
         length (filter InitCurl popped) \<le> MAX_PROCESS \<and>
         popped @ items (RequestQueue s') = items (RequestQueue s) \<and>
         (Empty (RequestQueue s') \<or> length (filter InitCurl popped) = MAX_PROCESS) \<and>
         (length (filter InitCurl popped) = MAX_PROCESS \<longrightarrow>
            popped \<noteq> [] \<and> InitCurl (last popped)) \<and>
         ((\<forall>c \<in> set (items (RequestQueue s)). \<not> InitCurl c) \<longrightarrow>
            popped = items (RequestQueue s) \<and>
            deleted_contexts (new_events s s') = items (RequestQueue s) \<and>
            items (RequestQueue s') = [] \<and>
            admitted_handles (new_events s s') = [] \<and>
            handles (Curl s') = handles (Curl s))"
proof -
  let ?xs = "items (RequestQueue s)"
  let ?d = "drained 0 ?xs"
  have pop: "popped = ?d"
    by (simp add: popped_def s'_def new_events_AsyncPerformRequests popped_admission_events)
  have adm: "admitted_handles (new_events s s') = map curl (filter InitCurl popped)"
    by (simp add: pop s'_def new_events_AsyncPerformRequests admitted_admission_events)
  have del: "deleted_contexts (new_events s s') = filter (\<lambda>c. \<not> InitCurl c) popped"
    by (simp add: pop s'_def new_events_AsyncPerformRequests deleted_admission_events)
  have cap: "length (filter InitCurl popped) \<le> MAX_PROCESS"
    by (simp add: pop drained_admits)
  have rest: "items (RequestQueue s') = drop (length ?d) ?xs"
    by (simp add: s'_def AsyncPerformRequests_result)
  have split: "popped @ items (RequestQueue s') = ?xs"
    by (simp add: pop rest drained_split)
  from drained_stops [of 0 ?xs] cap
  have stop: "Empty (RequestQueue s') \<or> length (filter InitCurl popped) = MAX_PROCESS"
    by (auto simp: rest pop Empty_def split: list.splits)
  have soon: "length (filter InitCurl popped) = MAX_PROCESS \<longrightarrow>
      popped \<noteq> [] \<and> InitCurl (last popped)"
    using drained_cap_last [of 0 ?xs] by (simp add: pop MAX_PROCESS_def)
  have all: "popped = ?xs \<and> deleted_contexts (new_events s s') = ?xs \<and>
      items (RequestQueue s') = [] \<and> admitted_handles (new_events s s') = [] \<and>
      handles (Curl s') = handles (Curl s)"
    if fail: "\<forall>c \<in> set ?xs. \<not> InitCurl c"
  proof -
    from fail have d: "?d = ?xs" by (rule drained_all_fail) (simp add: MAX_PROCESS_def)
    from fail have none: "filter InitCurl ?xs = []" by (simp add: filter_empty_conv)
    from fail have every: "filter (\<lambda>c. \<not> InitCurl c) ?xs = ?xs" by (simp add: filter_id_conv)
    show ?thesis
      using d none every
      by (simp add: pop adm del) (simp add: s'_def AsyncPerformRequests_result)
  qed
  from adm del cap split stop soon all show ?thesis by blast
qed

theorem failed_initializations_are_not_counted_witness:
  "length (deleted_contexts (new_events (submitted twelve_bad)
       (AsyncPerformRequests (submitted twelve_bad)))) = 12 \<and>
   items (RequestQueue (AsyncPerformRequests (submitted twelve_bad))) = [] \<and>
   admitted_handles (new_events (submitted twelve_bad)
       (AsyncPerformRequests (submitted twelve_bad))) = [] \<and>
   popped_from RequestQ (new_events (submitted good_bad_good)
       (AsyncPerformRequests (submitted good_bad_good))) = good_bad_good \<and>
   length (popped_from RequestQ (new_events (submitted good_bad_good)
       (AsyncPerformRequests (submitted good_bad_good)))) = 12 \<and>
   admitted_handles (new_events (submitted good_bad_good)
       (AsyncPerformRequests (submitted good_bad_good))) =
     [curl (request 0 True), curl (request 11 True)] \<and>
   length (deleted_contexts (new_events (submitted good_bad_good)
       (AsyncPerformRequests (submitted good_bad_good)))) = 10"
proof -
  note bad = failed_initializations_are_not_counted [of "submitted twelve_bad"]
  note mix = failed_initializations_are_not_counted [of "submitted good_bad_good"]
  let ?s = "submitted good_bad_good"
  let ?s' = "AsyncPerformRequests ?s"
  let ?popped = "popped_from RequestQ (new_events ?s ?s')"
  from bad have 1: "length (deleted_contexts (new_events (submitted twelve_bad)
       (AsyncPerformRequests (submitted twelve_bad)))) = 12 \<and>
   items (RequestQueue (AsyncPerformRequests (submitted twelve_bad))) = [] \<and>
   admitted_handles (new_events (submitted twelve_bad)
       (AsyncPerformRequests (submitted twelve_bad))) = []"
    by (simp add: pending_submitted twelve_bad_def request_def InitCurl_def)
  from mix have split: "?popped @ items (RequestQueue ?s') = good_bad_good"
    unfolding pending_submitted by (elim conjE)
  from mix have stop: "Empty (RequestQueue ?s') \<or> length (filter InitCurl ?popped) = MAX_PROCESS"
    by (elim conjE)
  from mix have adm: "admitted_handles (new_events ?s ?s') = map curl (filter InitCurl ?popped)"
    by (elim conjE)
  from mix have del: "deleted_contexts (new_events ?s ?s') = filter (\<lambda>c. \<not> InitCurl c) ?popped"
    by (elim conjE)
  have good: "filter InitCurl good_bad_good = [request 0 True, request 11 True]"
    and badl: "length (filter (\<lambda>c. \<not> InitCurl c) good_bad_good) = 10"
    and len: "length good_bad_good = 12"
    by (simp_all add: good_bad_good_def request_def InitCurl_def)
  have "filter InitCurl ?popped @ filter InitCurl (items (RequestQueue ?s')) =
      filter InitCurl good_bad_good"
    using split by (metis filter_append)
  then have "length (filter InitCurl ?popped) \<le> 2"
    using good by (metis length_append le_add1 length_Cons list.size(3) numeral_2_eq_2)
  then have "length (filter InitCurl ?popped) \<noteq> MAX_PROCESS"
    by (simp add: MAX_PROCESS_def)
  with stop have "Empty (RequestQueue ?s')" by blast
  then have "items (RequestQueue ?s') = []"
    by (simp add: Empty_def split: list.splits)
  with split have 2: "?popped = good_bad_good" by simp
  from 2 len have 3: "length ?popped = 12" by simp
  from adm 2 good have 4: "admitted_handles (new_events ?s ?s') =
      [curl (request 0 True), curl (request 11 True)]" by simp
  from del 2 badl have 5: "length (deleted_contexts (new_events ?s ?s')) = 10" by simp
  from 1 2 3 4 5 show ?thesis by (intro conjI) (elim conjE, assumption)+
qed

section \<open>Properties of completion draining\<close>

lemma new_events_eq: "trace s' = trace s @ es \<Longrightarrow> new_events s s' = es"
  by (simp add: new_events_def)

lemma new_events_CheckCompletedRequests:
  "new_events s (CheckCompletedRequests s) =
     concat (map completion_events (messages (Curl s))) @ [EvMultiInfoRead]"
  by (rule new_events_eq) (simp add: CheckCompletedRequests_result)

lemma completions_completion_events:
  "completions (concat (map completion_events ms)) = []"
  by (induction ms) (auto simp: completion_events_def)

lemma pushed_completion_events:
  "pushed_to CompletedQ (concat (map completion_events ms)) = map CURLINFO_PRIVATE (done_handles ms)"
  by (induction ms) (auto simp: completion_events_def done_handles_def)

text \<open>
  C5: \<open>CheckCompletedRequests\<close> polls \<open>curl_multi_info_read\<close> until it returns no message
  (it always returns, with no message left). For each message of kind \<open>CURLMSG_DONE\<close>,
  in order, it removes the easy handle from the multi handle and then pushes the
  handle's context onto the completed queue between \<open>Lock\<close> and \<open>Unlock\<close> of that queue.
  It never calls \<open>OnCompleted\<close>. A message of another kind is only read: the check goes
  on from the same state with that message gone.
\<close>

theorem finished_transfers_move_to_completed_queue:
  fixes s :: engine
  defines "s' \<equiv> CheckCompletedRequests s"
  defines "finished \<equiv> done_handles (messages (Curl s))"
  shows "messages (Curl s') = [] \<and>
         handles (Curl s') = fold remove1 finished (handles (Curl s)) \<and>
         items (CompletedRequestQueue s') =
           items (CompletedRequestQueue s) @ map CURLINFO_PRIVATE finished \<and>
         new_events s s' = concat (map completion_events (messages (Curl s))) @ [EvMultiInfoRead] \<and>
         (\<forall>m \<in> set (messages (Curl s)).
            completion_events m =
              (if msg m = CURLMSG_DONE
               then [EvMultiInfoRead, EvMultiRemoveHandle (easy_handle m), EvLock CompletedQ,
                     EvPush CompletedQ (CURLINFO_PRIVATE (easy_handle m)), EvUnlock CompletedQ]
               else [EvMultiInfoRead])) \<and>
         completions (new_events s s') = [] \<and>
         (\<forall>m rest. messages (Curl s) = m # rest \<and> msg m \<noteq> CURLMSG_DONE \<longrightarrow>
            s' = CheckCompletedRequests
                   (s\<lparr>Curl := (Curl s)\<lparr>messages := rest\<rparr>, trace := trace s @ [EvMultiInfoRead]\<rparr>))"
proof -
  have 1: "messages (Curl s') = []"
    and 2: "handles (Curl s') = fold remove1 finished (handles (Curl s))"
    and 3: "items (CompletedRequestQueue s') =
           items (CompletedRequestQueue s) @ map CURLINFO_PRIVATE finished"
    by (simp_all add: s'_def finished_def CheckCompletedRequests_result)
  have 4: "new_events s s' = concat (map completion_events (messages (Curl s))) @ [EvMultiInfoRead]"
    by (simp add: s'_def new_events_CheckCompletedRequests)
  have 5: "\<forall>m \<in> set (messages (Curl s)).
            completion_events m =
              (if msg m = CURLMSG_DONE
               then [EvMultiInfoRead, EvMultiRemoveHandle (easy_handle m), EvLock CompletedQ,
                     EvPush CompletedQ (CURLINFO_PRIVATE (easy_handle m)), EvUnlock CompletedQ]
               else [EvMultiInfoRead])"
    by (simp add: completion_events_def)
  have 6: "completions (new_events s s') = []"
    by (simp add: 4 completions_completion_events)
  have 7: "s' = CheckCompletedRequests
                   (s\<lparr>Curl := (Curl s)\<lparr>messages := rest\<rparr>, trace := trace s @ [EvMultiInfoRead]\<rparr>)"
    if "messages (Curl s) = m # rest \<and> msg m \<noteq> CURLMSG_DONE" for m rest
    unfolding s'_def using that
    by (subst CheckCompletedRequests.simps) (simp add: curl_multi_info_read_def emit_def)
  from 1 2 3 4 5 6 7 show ?thesis by blast
qed

lemma completed_loaded: "items (CompletedRequestQueue loaded) = []"
  by (simp add: loaded_def SDK_OnLoad_def globals0_def emit_def Let_def)

theorem finished_transfers_move_to_completed_queue_witness:
  "items (CompletedRequestQueue (CheckCompletedRequests two_finished)) =
     [request 3 True, request 2 True] \<and>
   handles (Curl (CheckCompletedRequests two_finished)) = [curl (request 1 True)] \<and>
   CheckCompletedRequests two_finished =
     CheckCompletedRequests
       (two_finished\<lparr>Curl := (Curl two_finished)
           \<lparr>messages := [\<lparr>msg = CURLMSG_DONE, easy_handle = curl (request 3 True)\<rparr>,
                         \<lparr>msg = CURLMSG_DONE, easy_handle = curl (request 2 True)\<rparr>]\<rparr>,
          trace := trace two_finished @ [EvMultiInfoRead]\<rparr>)"
proof -
  note t = finished_transfers_move_to_completed_queue [of two_finished]
  have ms: "messages (Curl two_finished) =
      \<lparr>msg = CURLMSG_NONE, easy_handle = curl (request 1 True)\<rparr> #
      [\<lparr>msg = CURLMSG_DONE, easy_handle = curl (request 3 True)\<rparr>,
       \<lparr>msg = CURLMSG_DONE, easy_handle = curl (request 2 True)\<rparr>]"
    and hs: "handles (Curl two_finished) =
      [curl (request 1 True), curl (request 2 True), curl (request 3 True)]"
    and cs: "items (CompletedRequestQueue two_finished) = []"
    by (simp_all add: two_finished_def completed_loaded)
  from t have "items (CompletedRequestQueue (CheckCompletedRequests two_finished)) =
      items (CompletedRequestQueue two_finished) @
        map CURLINFO_PRIVATE (done_handles (messages (Curl two_finished)))"
    by (elim conjE)
  then have 1: "items (CompletedRequestQueue (CheckCompletedRequests two_finished)) =
      [request 3 True, request 2 True]"
    by (simp add: ms cs done_handles_def curl_def)
  from t have "handles (Curl (CheckCompletedRequests two_finished)) =
      fold remove1 (done_handles (messages (Curl two_finished))) (handles (Curl two_finished))"
    by (elim conjE)
  then have 2: "handles (Curl (CheckCompletedRequests two_finished)) = [curl (request 1 True)]"
    by (simp add: ms hs done_handles_def curl_def request_def)
  from t have "\<forall>m rest. messages (Curl two_finished) = m # rest \<and> msg m \<noteq> CURLMSG_DONE \<longrightarrow>
      CheckCompletedRequests two_finished =
        CheckCompletedRequests
          (two_finished\<lparr>Curl := (Curl two_finished)\<lparr>messages := rest\<rparr>,
             trace := trace two_finished @ [EvMultiInfoRead]\<rparr>)"
    by (elim conjE)
  from this [rule_format, OF conjI, OF ms] have 3: "CheckCompletedRequests two_finished =
     CheckCompletedRequests
       (two_finished\<lparr>Curl := (Curl two_finished)
           \<lparr>messages := [\<lparr>msg = CURLMSG_DONE, easy_handle = curl (request 3 True)\<rparr>,
                         \<lparr>msg = CURLMSG_DONE, easy_handle = curl (request 2 True)\<rparr>]\<rparr>,
          trace := trace two_finished @ [EvMultiInfoRead]\<rparr>)"
    by simp
  from 1 2 3 show ?thesis by (intro conjI)
qed

section \<open>Properties of the shared timer\<close>

lemma prefix_fold_curl_calls: "\<exists>es. trace (fold curl_calls r s) = trace s @ es"
proof (induction r arbitrary: s)
  case Nil
  show ?case by simp
next
  case (Cons cb r)
  have "\<exists>es. trace (curl_calls cb s) = trace s @ es"
    by (cases cb)
       (auto simp: CurlSocketCallback_def CurlTimeoutCallback_def uv_timer_stop_def
          uv_timer_start_def new_CurlContext_def Destroy_def uv_poll_start_def
          curl_multi_assign_def emit_def Let_def split: option.splits)
  then obtain es where "trace (curl_calls cb s) = trace s @ es" ..
  moreover from Cons.IH [of "curl_calls cb s"]
  obtain fs where "trace (fold curl_calls r (curl_calls cb s)) = trace (curl_calls cb s) @ fs" ..
  ultimately show ?case by simp
qed

lemma trace_PerformRequests:
  "\<exists>es. trace (PerformRequests r s) =
     trace s @ EvMultiSocketAction CURL_SOCKET_TIMEOUT 0 # es @ [EvMultiInfoRead]"
proof -
  obtain es where "trace (curl_multi_socket_action r CURL_SOCKET_TIMEOUT 0 s) =
      trace s @ EvMultiSocketAction CURL_SOCKET_TIMEOUT 0 # es"
    using prefix_fold_curl_calls [of r "emit (EvMultiSocketAction CURL_SOCKET_TIMEOUT 0) s"]
    by (auto simp: curl_multi_socket_action_def emit_def)
  then show ?thesis
    by (simp add: PerformRequests_def CheckCompletedRequests_result)
qed

text \<open>
  C6: on a deadline request, \<open>timeout_ms = -1\<close> stops the shared timer \<open>g_Timeout\<close>; any
  other value starts it, replacing whatever it was set to, with that value as timeout
  and repeat 0 (it fires once); for a value that is a number of milliseconds
  (\<open>0 \<le> timeout_ms\<close>) the timeout is exactly that number. When the timer expires, its
  callback \<open>PerformRequests\<close> first calls \<open>curl_multi_socket_action\<close> for
  \<open>CURL_SOCKET_TIMEOUT\<close> (no socket) with no event flags, and then checks for finished
  transfers until no message is left.
\<close>

theorem shared_timer_follows_deadline:
  "(timeout_ms = - 1 \<longrightarrow>
      CurlTimeoutCallback timeout_ms s = uv_timer_stop s \<and>
      \<not> armed (Timeout (CurlTimeoutCallback timeout_ms s)) \<and>
      new_events s (CurlTimeoutCallback timeout_ms s) = [EvTimerStop]) \<and>
   (timeout_ms \<noteq> - 1 \<longrightarrow>
      Timeout (CurlTimeoutCallback timeout_ms s) =
        \<lparr>armed = True, timer_timeout = timeout_ms, timer_repeat = 0\<rparr> \<and>
      new_events s (CurlTimeoutCallback timeout_ms s) = [EvTimerStart timeout_ms 0]) \<and>
   (0 \<le> sint timeout_ms \<longrightarrow>
      uint (timer_timeout (Timeout (CurlTimeoutCallback timeout_ms s))) = sint timeout_ms) \<and>
   (loop_running s \<and> armed (Timeout s) \<and> timer_repeat (Timeout s) = 0 \<longrightarrow>
      perform (TimerExpires reaction) s =
        CheckCompletedRequests
          (curl_multi_socket_action reaction CURL_SOCKET_TIMEOUT 0
             (s\<lparr>Timeout := (Timeout s)\<lparr>armed := False\<rparr>\<rparr>))) \<and>
   (\<exists>es. new_events s (PerformRequests reaction s) =
      EvMultiSocketAction CURL_SOCKET_TIMEOUT 0 # es @ [EvMultiInfoRead]) \<and>
   CURL_SOCKET_TIMEOUT = - 1 \<and>
   messages (Curl (PerformRequests reaction s)) = []"
proof -
  have 1: "CurlTimeoutCallback timeout_ms s = uv_timer_stop s \<and>
      \<not> armed (Timeout (CurlTimeoutCallback timeout_ms s)) \<and>
      new_events s (CurlTimeoutCallback timeout_ms s) = [EvTimerStop]" if "timeout_ms = - 1"
    using that by (simp add: CurlTimeoutCallback_def uv_timer_stop_def emit_def new_events_def)
  have 2: "Timeout (CurlTimeoutCallback timeout_ms s) =
        \<lparr>armed = True, timer_timeout = timeout_ms, timer_repeat = 0\<rparr> \<and>
      new_events s (CurlTimeoutCallback timeout_ms s) = [EvTimerStart timeout_ms 0]"
    if "timeout_ms \<noteq> - 1"
    using that by (simp add: CurlTimeoutCallback_def uv_timer_start_def emit_def new_events_def)
  have 3: "uint (timer_timeout (Timeout (CurlTimeoutCallback timeout_ms s))) = sint timeout_ms"
    if "0 \<le> sint timeout_ms"
  proof -
    from that have "timeout_ms \<noteq> - 1" by auto
    with 2 have "timer_timeout (Timeout (CurlTimeoutCallback timeout_ms s)) = timeout_ms" by simp
    moreover have "uint timeout_ms = sint timeout_ms"
    proof -
      have "sint timeout_ms < 2 ^ 64"
        using sint_lt [of timeout_ms] by simp
      with that have "take_bit 64 (sint timeout_ms) = sint timeout_ms"
        by (simp add: take_bit_int_eq_self)
      then show ?thesis by (simp add: uint_sint)
    qed
    ultimately show ?thesis by simp
  qed
  have 4: "perform (TimerExpires reaction) s =
        CheckCompletedRequests
          (curl_multi_socket_action reaction CURL_SOCKET_TIMEOUT 0
             (s\<lparr>Timeout := (Timeout s)\<lparr>armed := False\<rparr>\<rparr>))"
    if "loop_running s \<and> armed (Timeout s) \<and> timer_repeat (Timeout s) = 0"
    using that by (simp add: PerformRequests_def)
  from trace_PerformRequests [of reaction s]
  have 5: "\<exists>es. new_events s (PerformRequests reaction s) =
      EvMultiSocketAction CURL_SOCKET_TIMEOUT 0 # es @ [EvMultiInfoRead]"
    by (auto simp: new_events_def)
  have 6: "CURL_SOCKET_TIMEOUT = - 1" by (simp add: CURL_SOCKET_TIMEOUT_def)
  have 7: "messages (Curl (PerformRequests reaction s)) = []"
    by (simp add: PerformRequests_def CheckCompletedRequests_result)
  from 1 2 3 4 5 6 7 show ?thesis by blast
qed

theorem shared_timer_follows_deadline_witness:
  "\<not> armed (Timeout (CurlTimeoutCallback (- 1) (CurlTimeoutCallback 250 loaded))) \<and>
   Timeout (CurlTimeoutCallback 250 loaded) =
     \<lparr>armed = True, timer_timeout = 250, timer_repeat = 0\<rparr> \<and>
   uint (timer_timeout (Timeout (CurlTimeoutCallback 250 loaded))) = 250 \<and>
   perform (TimerExpires []) (CurlTimeoutCallback 250 loaded) =
     CheckCompletedRequests
       (curl_multi_socket_action [] CURL_SOCKET_TIMEOUT 0
          ((CurlTimeoutCallback 250 loaded)
             \<lparr>Timeout := (Timeout (CurlTimeoutCallback 250 loaded))\<lparr>armed := False\<rparr>\<rparr>))"
proof -
  note stop = shared_timer_follows_deadline [of "- 1" "CurlTimeoutCallback 250 loaded" "[]"]
  note start = shared_timer_follows_deadline [of 250 loaded "[]"]
  note expiry = shared_timer_follows_deadline [of 0 "CurlTimeoutCallback 250 loaded" "[]"]
  from stop have 1: "\<not> armed (Timeout (CurlTimeoutCallback (- 1) (CurlTimeoutCallback 250 loaded)))"
    by blast
  from start have 2: "Timeout (CurlTimeoutCallback 250 loaded) =
     \<lparr>armed = True, timer_timeout = 250, timer_repeat = 0\<rparr>"
    by simp
  from start have 3: "uint (timer_timeout (Timeout (CurlTimeoutCallback 250 loaded))) = 250"
    by simp
  have "loop_running (CurlTimeoutCallback 250 loaded)"
    by (simp add: CurlTimeoutCallback_def uv_timer_start_def emit_def loaded_eq)
  with expiry 2 have 4: "perform (TimerExpires []) (CurlTimeoutCallback 250 loaded) =
     CheckCompletedRequests
       (curl_multi_socket_action [] CURL_SOCKET_TIMEOUT 0
          ((CurlTimeoutCallback 250 loaded)
             \<lparr>Timeout := (Timeout (CurlTimeoutCallback 250 loaded))\<lparr>armed := False\<rparr>\<rparr>))"
    by simp
  from 1 2 3 4 show ?thesis by (intro conjI)
qed

section \<open>The per-tick hook, characterised\<close>

lemma FrameHook_idle:
  "items (CompletedRequestQueue s) = [] \<Longrightarrow>
   FrameHook s =
     s\<lparr>async_pending := (if Empty (RequestQueue s) then async_pending s
                          else (async_pending s)(AsyncPerformRequestsH := True)),
       trace := trace s @ wake_events s @ [EvEmpty CompletedQ]\<rparr>"
  by (simp add: FrameHook_def q_Empty_def Empty_def uv_async_send_def emit_def wake_events_def
      split: list.splits)

lemma FrameHook_completes:
  "items (CompletedRequestQueue s) = c # cs \<Longrightarrow>
   FrameHook s =
     s\<lparr>async_pending := (if Empty (RequestQueue s) then async_pending s
                          else (async_pending s)(AsyncPerformRequestsH := True)),
       CompletedRequestQueue := (CompletedRequestQueue s)\<lparr>items := cs, locked := False\<rparr>,
       trace := trace s @ wake_events s @
         [EvEmpty CompletedQ, EvLock CompletedQ, EvPop CompletedQ c, EvOnCompleted c, EvDelete c,
          EvUnlock CompletedQ]\<rparr>"
  by (intro engine.equality LockedQueue.equality)
     (simp_all add: FrameHook_def q_Empty_def Empty_def uv_async_send_def emit_def
        wake_events_def q_Lock_def Lock_def q_Pop_def Pop_def call_OnCompleted_def
        delete_context_def q_Unlock_def Unlock_def Let_def split: list.splits)

lemma completions_wake_events [simp]: "completions (wake_events s) = []"
  by (simp add: wake_events_def)

lemma FrameHook_trace:
  "\<exists>es. trace (FrameHook s) = trace s @ es \<and>
     completions es = take 1 (items (CompletedRequestQueue s))"
  by (cases "items (CompletedRequestQueue s)") (simp_all add: FrameHook_idle FrameHook_completes)

lemma FrameHook_completed:
  "items (CompletedRequestQueue (FrameHook s)) = drop 1 (items (CompletedRequestQueue s))"
  by (cases "items (CompletedRequestQueue s)") (simp_all add: FrameHook_idle FrameHook_completes)

lemma ticks_trace:
  "\<exists>es. trace ((FrameHook ^^ n) s) = trace s @ es \<and>
     completions es = take n (items (CompletedRequestQueue s)) \<and>
     items (CompletedRequestQueue ((FrameHook ^^ n) s)) = drop n (items (CompletedRequestQueue s))"
proof (induction n arbitrary: s)
  case 0
  show ?case by simp
next
  case (Suc n)
  obtain es where es: "trace (FrameHook s) = trace s @ es"
      "completions es = take 1 (items (CompletedRequestQueue s))"
    using FrameHook_trace by blast
  obtain fs where fs: "trace ((FrameHook ^^ n) (FrameHook s)) = trace (FrameHook s) @ fs"
      "completions fs = take n (items (CompletedRequestQueue (FrameHook s)))"
      "items (CompletedRequestQueue ((FrameHook ^^ n) (FrameHook s))) =
         drop n (items (CompletedRequestQueue (FrameHook s)))"
    using Suc.IH [of "FrameHook s"] by blast
  have "take 1 xs @ take n (drop 1 xs) = take (Suc n) xs" for xs :: "IHTTPContext list"
    by (cases xs) simp_all
  with es fs show ?case
    by (simp add: funpow_swap1 FrameHook_completed)
qed

section \<open>Properties of the socket watch contexts\<close>

lemma interest_values:
  "interest CURL_POLL_IN = UV_READABLE"
  "interest CURL_POLL_OUT = UV_WRITABLE"
  "interest CURL_POLL_INOUT = UV_READABLE OR UV_WRITABLE"
  by (simp_all add: interest_def CURL_POLL_IN_def CURL_POLL_OUT_def CURL_POLL_INOUT_def
      UV_READABLE_def UV_WRITABLE_def)

lemma CurlSocketCallback_create:
  "action = CURL_POLL_IN \<or> action = CURL_POLL_OUT \<or> action = CURL_POLL_INOUT \<Longrightarrow>
   CurlSocketCallback sock action None s =
     s\<lparr>contexts := (contexts s)(next_context s \<mapsto> \<lparr>socket = sock, polling = Some (interest action)\<rparr>),
       next_context := next_context s + 1,
       Curl := (Curl s)\<lparr>assigned := (assigned (Curl s))(sock \<mapsto> next_context s)\<rparr>,
       trace := trace s @ [EvNewCurlContext (next_context s) sock,
                           EvMultiAssign sock (Some (next_context s)),
                           EvPollStart (next_context s) (interest action)]\<rparr>"
  by (intro engine.equality CURLM.equality)
     (auto simp: CurlSocketCallback_def new_CurlContext_def curl_multi_assign_def
        uv_poll_start_def emit_def Let_def interest_def CURL_POLL_IN_def CURL_POLL_OUT_def
        CURL_POLL_INOUT_def UV_READABLE_def UV_WRITABLE_def)

lemma CurlSocketCallback_update:
  "action = CURL_POLL_IN \<or> action = CURL_POLL_OUT \<or> action = CURL_POLL_INOUT \<Longrightarrow>
   contexts s p = Some c \<Longrightarrow>
   CurlSocketCallback sock action (Some p) s =
     s\<lparr>contexts := (contexts s)(p \<mapsto> c\<lparr>polling := Some (interest action)\<rparr>),
       Curl := (Curl s)\<lparr>assigned := (assigned (Curl s))(sock \<mapsto> p)\<rparr>,
       trace := trace s @ [EvMultiAssign sock (Some p), EvPollStart p (interest action)]\<rparr>"
  by (intro engine.equality CURLM.equality)
     (auto simp: CurlSocketCallback_def curl_multi_assign_def
        uv_poll_start_def emit_def Let_def interest_def CURL_POLL_IN_def CURL_POLL_OUT_def
        CURL_POLL_INOUT_def UV_READABLE_def UV_WRITABLE_def)

lemma CurlSocketCallback_remove:
  "contexts s p = Some c \<Longrightarrow>
   CurlSocketCallback sock CURL_POLL_REMOVE (Some p) s =
     s\<lparr>contexts := (contexts s)(p := None),
       Curl := (Curl s)\<lparr>assigned := (assigned (Curl s))(sock := None)\<rparr>,
       trace := trace s @ [EvPollStop p, EvDestroyCurlContext p, EvMultiAssign sock None]\<rparr>"
  by (intro engine.equality CURLM.equality)
     (auto simp: CurlSocketCallback_def curl_multi_assign_def Destroy_def emit_def
        CURL_POLL_IN_def CURL_POLL_OUT_def CURL_POLL_INOUT_def CURL_POLL_REMOVE_def)

lemma CurlSocketCallback_ignore:
  "CurlSocketCallback sock CURL_POLL_REMOVE None s = s"
  "action \<noteq> CURL_POLL_IN \<Longrightarrow> action \<noteq> CURL_POLL_OUT \<Longrightarrow> action \<noteq> CURL_POLL_INOUT \<Longrightarrow>
     action \<noteq> CURL_POLL_REMOVE \<Longrightarrow> CurlSocketCallback sock action socketdata s = s"
  by (simp_all add: CurlSocketCallback_def
        CURL_POLL_IN_def CURL_POLL_OUT_def CURL_POLL_INOUT_def CURL_POLL_REMOVE_def)

lemma contexts_curl_calls:
  "\<not> is_SocketFunction cb \<Longrightarrow> contexts (curl_calls cb s) = contexts s"
  by (cases cb)
     (simp_all add: CurlTimeoutCallback_def uv_timer_stop_def uv_timer_start_def emit_def)

lemma contexts_fold_curl_calls:
  "\<forall>cb \<in> set r. \<not> is_SocketFunction cb \<Longrightarrow> contexts (fold curl_calls r s) = contexts s"
  by (induction r arbitrary: s) (simp_all add: contexts_curl_calls)

lemma contexts_curl_multi_socket_action:
  "\<forall>cb \<in> set r. \<not> is_SocketFunction cb \<Longrightarrow>
     contexts (curl_multi_socket_action r sock flags s) = contexts s"
  by (simp add: curl_multi_socket_action_def contexts_fold_curl_calls emit_def)

lemma contexts_CheckCompletedRequests [simp]:
  "contexts (CheckCompletedRequests s) = contexts s"
  by (simp add: CheckCompletedRequests_result)

lemma contexts_AsyncPerformRequests [simp]:
  "contexts (AsyncPerformRequests s) = contexts s"
  by (simp add: AsyncPerformRequests_result)

lemma contexts_FrameHook [simp]: "contexts (FrameHook s) = contexts s"
  by (cases "items (CompletedRequestQueue s)") (simp_all add: FrameHook_idle FrameHook_completes)

lemma contexts_SDK_OnUnload: "SDK_OnUnload s = Some s' \<Longrightarrow> contexts s' = contexts s"
  by (auto simp: SDK_OnUnload_def uv_thread_join_def uv_async_send_def AsyncStopLoop_def
      emit_def Let_def split: option.splits if_splits)

lemma contexts_run_frame_action [simp]: "contexts (run_frame_action a s) = contexts s"
  by (cases a) (simp_all add: log_msg_def log_err_def execute_cb_def emit_def)

lemma contexts_perform:
  "\<forall>cb \<in> set (reaction_of a). \<not> is_SocketFunction cb \<Longrightarrow>
     contexts (perform a s) = contexts s"
proof (cases a)
  case (Submit c)
  then show ?thesis by (simp add: AddRequestToQueue_result)
next
  case Unload
  then show ?thesis by (auto split: option.splits dest: contexts_SDK_OnUnload)
next
  case HostFrameAction
  then show ?thesis by (simp split: list.splits)
next
  case (TimerExpires r)
  assume "\<forall>cb \<in> set (reaction_of a). \<not> is_SocketFunction cb"
  with TimerExpires show ?thesis
    by (simp add: PerformRequests_def contexts_curl_multi_socket_action)
next
  case (SocketEvent p events r)
  assume "\<forall>cb \<in> set (reaction_of a). \<not> is_SocketFunction cb"
  with SocketEvent show ?thesis
    by (simp add: CurlSocketActivity_def contexts_curl_multi_socket_action Let_def
        split: option.splits)
qed (simp_all add: LogMessage_def LogError_def Defer_def AddFrameAction_def emit_def)

text \<open>
  C8: on a request \<open>CURL_POLL_IN\<close>, \<open>CURL_POLL_OUT\<close> or \<open>CURL_POLL_INOUT\<close> for a socket
  without a watch context (\<open>socketdata\<close> null), a context is created for the socket,
  assigned to it, and polling starts with exactly the requested interest; with a watch
  context, no context is created and polling of the existing one is updated to the
  requested interest. On \<open>CURL_POLL_REMOVE\<close> for a socket with a watch context, polling is
  stopped, the context destroyed and the socket's assignment cleared; without one,
  nothing happens. No other handler creates or destroys a watch context: a step of the
  engine during which libcurl does not call the socket function leaves the store of
  watch contexts as it is.
\<close>

theorem socket_watch_follows_requests:
  "(action = CURL_POLL_IN \<or> action = CURL_POLL_OUT \<or> action = CURL_POLL_INOUT \<longrightarrow>
      CurlSocketCallback sock action None s =
        s\<lparr>contexts := (contexts s)
               (next_context s \<mapsto> \<lparr>socket = sock, polling = Some (interest action)\<rparr>),
          next_context := next_context s + 1,
          Curl := (Curl s)\<lparr>assigned := (assigned (Curl s))(sock \<mapsto> next_context s)\<rparr>,
          trace := trace s @ [EvNewCurlContext (next_context s) sock,
                              EvMultiAssign sock (Some (next_context s)),
                              EvPollStart (next_context s) (interest action)]\<rparr> \<and>
      (\<forall>p c. contexts s p = Some c \<longrightarrow>
         CurlSocketCallback sock action (Some p) s =
           s\<lparr>contexts := (contexts s)(p \<mapsto> c\<lparr>polling := Some (interest action)\<rparr>),
             Curl := (Curl s)\<lparr>assigned := (assigned (Curl s))(sock \<mapsto> p)\<rparr>,
             trace := trace s @ [EvMultiAssign sock (Some p), EvPollStart p (interest action)]\<rparr>)) \<and>
   interest CURL_POLL_IN = UV_READABLE \<and>
   interest CURL_POLL_OUT = UV_WRITABLE \<and>
   interest CURL_POLL_INOUT = UV_READABLE OR UV_WRITABLE \<and>
   (\<forall>p c. contexts s p = Some c \<longrightarrow>
      CurlSocketCallback sock CURL_POLL_REMOVE (Some p) s =
        s\<lparr>contexts := (contexts s)(p := None),
          Curl := (Curl s)\<lparr>assigned := (assigned (Curl s))(sock := None)\<rparr>,
          trace := trace s @ [EvPollStop p, EvDestroyCurlContext p, EvMultiAssign sock None]\<rparr>) \<and>
   CurlSocketCallback sock CURL_POLL_REMOVE None s = s \<and>
   ((\<forall>cb \<in> set (reaction_of a). \<not> is_SocketFunction cb) \<longrightarrow>
      contexts (perform a s) = contexts s)"
  using CurlSocketCallback_create [of action sock s] CurlSocketCallback_update [of action s _ _ sock]
    CurlSocketCallback_remove [of s _ _ sock] CurlSocketCallback_ignore(1) [of sock s]
    interest_values contexts_perform [of a s]
  by blast

lemma watching_eq:
  "watching =
     loaded\<lparr>contexts := [0 \<mapsto> \<lparr>socket = 5, polling = Some UV_READABLE\<rparr>],
       next_context := 1,
       Curl := (Curl loaded)\<lparr>assigned := [5 \<mapsto> 0]\<rparr>,
       trace := trace loaded @ [EvNewCurlContext 0 5, EvMultiAssign 5 (Some 0),
                                EvPollStart 0 UV_READABLE]\<rparr>"
  unfolding watching_def
  by (subst CurlSocketCallback_create)
     (simp_all add: interest_values loaded_eq globals0_def)

theorem socket_watch_follows_requests_witness:
  "contexts (CurlSocketCallback 5 CURL_POLL_IN None loaded) 0 =
     Some \<lparr>socket = 5, polling = Some UV_READABLE\<rparr> \<and>
   contexts (CurlSocketCallback 5 CURL_POLL_INOUT (Some 0) watching) 0 =
     Some \<lparr>socket = 5, polling = Some (UV_READABLE OR UV_WRITABLE)\<rparr> \<and>
   next_context (CurlSocketCallback 5 CURL_POLL_INOUT (Some 0) watching) = 1 \<and>
   contexts (CurlSocketCallback 5 CURL_POLL_REMOVE (Some 0) watching) 0 = None \<and>
   assigned (Curl (CurlSocketCallback 5 CURL_POLL_REMOVE (Some 0) watching)) 5 = None \<and>
   contexts (perform (TimerExpires [TimerFunction 10]) watching) = contexts watching"
proof -
  note create = socket_watch_follows_requests [of CURL_POLL_IN 5 loaded Tick]
  note others = socket_watch_follows_requests [of CURL_POLL_INOUT 5 watching
      "TimerExpires [TimerFunction 10]"]
  have c0: "contexts watching 0 = Some \<lparr>socket = 5, polling = Some UV_READABLE\<rparr>"
    by (simp add: watching_eq)
  have n0: "next_context watching = 1" "next_context loaded = 0"
    by (simp_all add: watching_eq loaded_eq globals0_def)
  from create have "CurlSocketCallback 5 CURL_POLL_IN None loaded =
        loaded\<lparr>contexts := (contexts loaded)
               (next_context loaded \<mapsto> \<lparr>socket = 5, polling = Some (interest CURL_POLL_IN)\<rparr>),
          next_context := next_context loaded + 1,
          Curl := (Curl loaded)\<lparr>assigned := (assigned (Curl loaded))(5 \<mapsto> next_context loaded)\<rparr>,
          trace := trace loaded @ [EvNewCurlContext (next_context loaded) 5,
                              EvMultiAssign 5 (Some (next_context loaded)),
                              EvPollStart (next_context loaded) (interest CURL_POLL_IN)]\<rparr>"
    by blast
  moreover from create have "interest CURL_POLL_IN = UV_READABLE" by blast
  ultimately have 1: "contexts (CurlSocketCallback 5 CURL_POLL_IN None loaded) 0 =
     Some \<lparr>socket = 5, polling = Some UV_READABLE\<rparr>"
    by (simp add: n0)
  from others have "\<forall>p c. contexts watching p = Some c \<longrightarrow>
         CurlSocketCallback 5 CURL_POLL_INOUT (Some p) watching =
           watching\<lparr>contexts := (contexts watching)(p \<mapsto> c\<lparr>polling := Some (interest CURL_POLL_INOUT)\<rparr>),
             Curl := (Curl watching)\<lparr>assigned := (assigned (Curl watching))(5 \<mapsto> p)\<rparr>,
             trace := trace watching @ [EvMultiAssign 5 (Some p),
                                        EvPollStart p (interest CURL_POLL_INOUT)]\<rparr>"
    by blast
  note upd = this [rule_format, OF c0]
  from others have i3: "interest CURL_POLL_INOUT = UV_READABLE OR UV_WRITABLE" by blast
  from upd i3 have 2: "contexts (CurlSocketCallback 5 CURL_POLL_INOUT (Some 0) watching) 0 =
     Some \<lparr>socket = 5, polling = Some (UV_READABLE OR UV_WRITABLE)\<rparr>"
    and 3: "next_context (CurlSocketCallback 5 CURL_POLL_INOUT (Some 0) watching) = 1"
    by (simp_all add: n0)
  from others have "\<forall>p c. contexts watching p = Some c \<longrightarrow>
      CurlSocketCallback 5 CURL_POLL_REMOVE (Some p) watching =
        watching\<lparr>contexts := (contexts watching)(p := None),
          Curl := (Curl watching)\<lparr>assigned := (assigned (Curl watching))(5 := None)\<rparr>,
          trace := trace watching @ [EvPollStop p, EvDestroyCurlContext p, EvMultiAssign 5 None]\<rparr>"
    by blast
  note rem = this [rule_format, OF c0]
  from rem have 4: "contexts (CurlSocketCallback 5 CURL_POLL_REMOVE (Some 0) watching) 0 = None"
    and 5: "assigned (Curl (CurlSocketCallback 5 CURL_POLL_REMOVE (Some 0) watching)) 5 = None"
    by simp_all
  from others have 6: "contexts (perform (TimerExpires [TimerFunction 10]) watching) =
      contexts watching"
    by simp
  from 1 2 3 4 5 6 show ?thesis by (intro conjI)
qed

section \<open>Properties of a failed initialisation\<close>

lemma initialised_only_curl_calls:
  "initialised_only s \<Longrightarrow> initialised_only (curl_calls cb s)"
  by (cases cb)
     (auto simp: initialised_only_def CurlSocketCallback_def CurlTimeoutCallback_def
        uv_timer_stop_def uv_timer_start_def new_CurlContext_def Destroy_def uv_poll_start_def
        curl_multi_assign_def emit_def Let_def split: option.splits)

lemma initialised_only_fold_curl_calls:
  "initialised_only s \<Longrightarrow> initialised_only (fold curl_calls r s)"
  by (induction r arbitrary: s) (simp_all add: initialised_only_curl_calls)

lemma set_fold_remove1: "set (fold remove1 hs xs) \<subseteq> set xs"
proof (induction hs arbitrary: xs)
  case Nil
  show ?case by simp
next
  case (Cons h hs)
  have "set (fold remove1 hs (remove1 h xs)) \<subseteq> set (remove1 h xs)" by (rule Cons.IH)
  also have "\<dots> \<subseteq> set xs" by (rule set_remove1_subset)
  finally show ?case by simp
qed

lemma initialised_only_CheckCompletedRequests:
  assumes "initialised_only s"
  shows "initialised_only (CheckCompletedRequests s)"
proof -
  have "set (done_handles (messages (Curl s))) \<subseteq> easy_handle ` set (messages (Curl s))"
    by (auto simp: done_handles_def)
  with assms set_fold_remove1 [of "done_handles (messages (Curl s))" "handles (Curl s)"]
  show ?thesis
    by (auto simp: initialised_only_def CheckCompletedRequests_result completions_completion_events)
qed

lemma initialised_only_curl_multi_socket_action:
  "initialised_only s \<Longrightarrow> initialised_only (curl_multi_socket_action r sock flags s)"
  unfolding curl_multi_socket_action_def
  by (rule initialised_only_fold_curl_calls) (simp add: initialised_only_def emit_def)

lemma initialised_only_AsyncPerformRequests:
  "initialised_only s \<Longrightarrow> initialised_only (AsyncPerformRequests s)"
  by (auto simp: initialised_only_def AsyncPerformRequests_result completions_admission_events
      curl_def)

lemma initialised_only_FrameHook:
  "initialised_only s \<Longrightarrow> initialised_only (FrameHook s)"
  by (cases "items (CompletedRequestQueue s)")
     (auto simp: initialised_only_def FrameHook_idle FrameHook_completes)

lemma initialised_only_SDK_OnUnload:
  "initialised_only s \<Longrightarrow> SDK_OnUnload s = Some s' \<Longrightarrow> initialised_only s'"
  by (auto simp: initialised_only_def SDK_OnUnload_def uv_thread_join_def uv_async_send_def
      AsyncStopLoop_def emit_def Let_def split: option.splits if_splits)

lemma initialised_only_run_frame_action:
  "initialised_only s \<Longrightarrow> initialised_only (run_frame_action a s)"
  by (cases a) (auto simp: initialised_only_def log_msg_def log_err_def execute_cb_def emit_def)

lemma initialised_only_perform:
  assumes "initialised_only s"
  shows "initialised_only (perform a s)"
proof (cases a)
  case (Submit c)
  with assms show ?thesis by (simp add: initialised_only_def AddRequestToQueue_result)
next
  case Tick
  with assms show ?thesis by (simp add: initialised_only_FrameHook)
next
  case HostFrameAction
  have "initialised_only (s\<lparr>frame_actions := fs\<rparr>)" for fs
    using assms by (simp add: initialised_only_def)
  with HostFrameAction assms show ?thesis
    by (simp add: initialised_only_run_frame_action split: list.splits)
next
  case Unload
  with assms show ?thesis by (auto split: option.splits dest: initialised_only_SDK_OnUnload)
next
  case Wake
  have "initialised_only (s\<lparr>async_pending := f\<rparr>)" for f
    using assms by (simp add: initialised_only_def)
  with Wake assms show ?thesis by (simp add: initialised_only_AsyncPerformRequests)
next
  case (TimerExpires r)
  have "initialised_only (s\<lparr>Timeout := t\<rparr>)" for t
    using assms by (simp add: initialised_only_def)
  with TimerExpires assms show ?thesis
    by (simp add: PerformRequests_def initialised_only_CheckCompletedRequests
        initialised_only_curl_multi_socket_action)
next
  case (SocketEvent p events r)
  with assms show ?thesis
    by (simp add: CurlSocketActivity_def Let_def initialised_only_CheckCompletedRequests
        initialised_only_curl_multi_socket_action split: option.splits)
next
  case (CallLogMessage m)
  with assms show ?thesis
    by (simp add: initialised_only_def LogMessage_def AddFrameAction_def emit_def)
next
  case (CallLogError m)
  with assms show ?thesis
    by (simp add: initialised_only_def LogError_def AddFrameAction_def emit_def)
next
  case (CallDefer cb)
  with assms show ?thesis
    by (simp add: initialised_only_def Defer_def AddFrameAction_def emit_def)
qed

lemma initialised_only_run: "initialised_only s \<Longrightarrow> initialised_only (run as s)"
  unfolding run_def by (induction as arbitrary: s) (simp_all add: initialised_only_perform)

lemma delete_follows_failed_init:
  assumes "c \<in> set cs" and "\<not> InitCurl c"
  shows "\<exists>pre post. concat (map admission_events cs) =
     pre @ [EvPop RequestQ c, EvInitCurl c, EvDelete c] @ post"
proof -
  from assms(1) obtain ys zs where "cs = ys @ c # zs" by (auto simp: in_set_conv_decomp)
  then have "concat (map admission_events cs) =
      (concat (map admission_events ys) @ [EvEmpty RequestQ]) @
      [EvPop RequestQ c, EvInitCurl c, EvDelete c] @ concat (map admission_events zs)"
    using assms(2) by (simp add: admission_events_def)
  then show ?thesis by blast
qed

text \<open>
  C1: a context that \<open>AsyncPerformRequests\<close> pops and whose \<open>InitCurl\<close> fails is deleted
  right after the failed call, inside \<open>AsyncPerformRequests\<close> (on the reactor thread). Its
  handle is not among those the drain adds to the multi handle; the drain pushes nothing
  to the completed queue, leaves that queue as it is and calls no \<open>OnCompleted\<close>. And for
  every continuation of the run (from a state in which only initialised contexts are in
  flight, as is every state reached after loading), the context is never in the active
  set, never in the completed queue, and \<open>OnCompleted\<close> is never called for it.
\<close>

theorem failed_initialization_is_dropped:
  fixes s :: engine
  defines "s' \<equiv> AsyncPerformRequests s"
  assumes popped: "c \<in> set (popped_from RequestQ (new_events s s'))"
    and failed: "\<not> InitCurl c"
  shows "(\<exists>pre post. new_events s s' =
            pre @ [EvPop RequestQ c, EvInitCurl c, EvDelete c] @ post) \<and>
         curl c \<notin> set (admitted_handles (new_events s s')) \<and>
         handles (Curl s') = handles (Curl s) @ admitted_handles (new_events s s') \<and>
         pushed_to CompletedQ (new_events s s') = [] \<and>
         CompletedRequestQueue s' = CompletedRequestQueue s \<and>
         completions (new_events s s') = [] \<and>
         (\<forall>as. initialised_only (run as loaded)) \<and>
         (\<forall>as. initialised_only s \<longrightarrow>
            curl c \<notin> set (handles (Curl (run as s'))) \<and>
            c \<notin> set (items (CompletedRequestQueue (run as s'))) \<and>
            c \<notin> set (completions (trace (run as s'))))"
proof -
  let ?d = "drained 0 (items (RequestQueue s))"
  have ev: "new_events s s' = EvLock RequestQ # concat (map admission_events ?d) @
      [EvEmpty RequestQ, EvUnlock RequestQ]"
    by (simp add: s'_def new_events_AsyncPerformRequests)
  from popped have "c \<in> set ?d" by (simp add: ev popped_admission_events)
  from delete_follows_failed_init [OF this failed] obtain pre post
    where "concat (map admission_events ?d) =
      pre @ [EvPop RequestQ c, EvInitCurl c, EvDelete c] @ post" by blast
  then have "new_events s s' = (EvLock RequestQ # pre) @
      [EvPop RequestQ c, EvInitCurl c, EvDelete c] @ (post @ [EvEmpty RequestQ, EvUnlock RequestQ])"
    by (simp add: ev)
  then have 1: "\<exists>pre post. new_events s s' =
      pre @ [EvPop RequestQ c, EvInitCurl c, EvDelete c] @ post" by blast
  have adm: "admitted_handles (new_events s s') = map curl (filter InitCurl ?d)"
    by (simp add: ev admitted_admission_events)
  from failed have 2: "curl c \<notin> set (admitted_handles (new_events s s'))"
    by (auto simp: adm curl_def)
  have 3: "handles (Curl s') = handles (Curl s) @ admitted_handles (new_events s s')"
    by (simp add: adm) (simp add: s'_def AsyncPerformRequests_result)
  have 4: "pushed_to CompletedQ (new_events s s') = []"
    by (simp add: ev pushed_admission_events)
  have 5: "CompletedRequestQueue s' = CompletedRequestQueue s"
    by (simp add: s'_def AsyncPerformRequests_result)
  have 6: "completions (new_events s s') = []"
    by (simp add: ev completions_admission_events)
  have 7: "curl c \<notin> set (handles (Curl (run as s'))) \<and>
            c \<notin> set (items (CompletedRequestQueue (run as s'))) \<and>
            c \<notin> set (completions (trace (run as s')))" if "initialised_only s" for as
  proof -
    from that have "initialised_only (run as s')"
      unfolding s'_def by (intro initialised_only_run initialised_only_AsyncPerformRequests)
    with failed show ?thesis by (auto simp: initialised_only_def curl_def)
  qed
  have 8: "initialised_only (run as loaded)" for as
    by (rule initialised_only_run) (simp add: initialised_only_def loaded_eq globals0_def)
  from 1 2 3 4 5 6 7 8 show ?thesis by blast
qed

lemma run_Submit: "run (map Submit cs) s = fold AddRequestToQueue cs s"
  unfolding run_def by (induction cs arbitrary: s) simp_all

theorem failed_initialization_is_dropped_witness:
  "request 2 False \<in> set (popped_from RequestQ (new_events mixed (AsyncPerformRequests mixed))) \<and>
   \<not> InitCurl (request 2 False) \<and>
   initialised_only mixed \<and>
   curl (request 2 False) \<notin> set (admitted_handles (new_events mixed (AsyncPerformRequests mixed))) \<and>
   completions (new_events mixed (AsyncPerformRequests mixed)) = [] \<and>
   curl (request 2 False) \<notin> set (handles (Curl
      (run [TimerExpires [Finished CURLMSG_DONE (curl (request 1 True))], Tick]
         (AsyncPerformRequests mixed)))) \<and>
   request 2 False \<notin> set (completions (trace
      (run [TimerExpires [Finished CURLMSG_DONE (curl (request 1 True))], Tick]
         (AsyncPerformRequests mixed))))"
proof -
  have items: "items (RequestQueue mixed) = [request 1 True, request 2 False, request 3 True]"
    by (simp add: mixed_def pending_submitted)
  have "popped_from RequestQ (new_events mixed (AsyncPerformRequests mixed)) =
      drained 0 (items (RequestQueue mixed))"
    by (simp add: new_events_AsyncPerformRequests popped_admission_events)
  then have p: "request 2 False \<in>
      set (popped_from RequestQ (new_events mixed (AsyncPerformRequests mixed)))"
    by (simp add: items MAX_PROCESS_def request_def InitCurl_def)
  have f: "\<not> InitCurl (request 2 False)"
    by (simp add: InitCurl_def request_def)
  note t = failed_initialization_is_dropped [OF p f]
  from t have "\<forall>as. initialised_only (run as loaded)" by (elim conjE)
  from this [rule_format, of "map Submit [request 1 True, request 2 False, request 3 True]"]
  have i: "initialised_only mixed"
    by (simp only: mixed_def submitted_def run_Submit)
  from t have 1: "curl (request 2 False) \<notin>
      set (admitted_handles (new_events mixed (AsyncPerformRequests mixed)))"
    by (elim conjE)
  from t have 2: "completions (new_events mixed (AsyncPerformRequests mixed)) = []"
    by (elim conjE)
  from t have "\<forall>as. initialised_only mixed \<longrightarrow>
            curl (request 2 False) \<notin> set (handles (Curl (run as (AsyncPerformRequests mixed)))) \<and>
            request 2 False \<notin> set (items (CompletedRequestQueue (run as (AsyncPerformRequests mixed)))) \<and>
            request 2 False \<notin> set (completions (trace (run as (AsyncPerformRequests mixed))))"
    by (elim conjE)
  note later = this [rule_format,
      of "[TimerExpires [Finished CURLMSG_DONE (curl (request 1 True))], Tick]", OF i]
  from later have 3: "curl (request 2 False) \<notin> set (handles (Curl
      (run [TimerExpires [Finished CURLMSG_DONE (curl (request 1 True))], Tick]
         (AsyncPerformRequests mixed))))"
    by (elim conjE)
  from later have 4: "request 2 False \<notin> set (completions (trace
      (run [TimerExpires [Finished CURLMSG_DONE (curl (request 1 True))], Tick]
         (AsyncPerformRequests mixed))))"
    by (elim conjE)
  from p f i 1 2 3 4 show ?thesis by (intro conjI)
qed

section \<open>Lock scoping of the queue accesses\<close>

lemma lock_scoped_admission_events:
  "held RequestQ \<Longrightarrow>
     lock_scoped held (concat (map admission_events cs) @ es) = lock_scoped held es"
  by (induction cs) (simp_all add: admission_events_def)

lemma pops_checked_admission_events:
  "held RequestQ \<Longrightarrow>
     pops_checked held checked
       (concat (map admission_events cs) @ [EvEmpty RequestQ, EvUnlock RequestQ])"
  by (induction cs arbitrary: checked) (simp_all add: admission_events_def)

lemma no_locks_released [simp]: "no_locks(q := False) = no_locks"
  by (auto simp: no_locks_def fun_eq_iff)

lemma lock_scoped_completion_events:
  "lock_scoped no_locks (concat (map completion_events ms) @ es) = lock_scoped no_locks es"
  by (induction ms) (simp_all add: completion_events_def)

lemma lock_scoped_imp_mutations_locked:
  "lock_scoped held es \<Longrightarrow> mutations_locked held es"
  by (induction held es rule: lock_scoped.induct) simp_all

lemma lock_scoped_wake_events [simp]: "\<not> lock_scoped no_locks (wake_events s @ es)"
  by (simp add: wake_events_def no_locks_def)

lemma mutations_locked_wake_events [simp]:
  "mutations_locked held (wake_events s @ es) = mutations_locked held es"
  by (simp add: wake_events_def)

lemma pops_checked_wake_events [simp]:
  "pops_checked no_locks no_locks (wake_events s @ es) = pops_checked no_locks no_locks es"
  by (auto simp: wake_events_def no_locks_def fun_eq_iff intro!: arg_cong2 [where f = "\<lambda>a b. pops_checked a b es"])

lemma new_events_FrameHook:
  "new_events s (FrameHook s) =
     wake_events s @
       (case items (CompletedRequestQueue s) of
          [] \<Rightarrow> [EvEmpty CompletedQ]
        | c # cs \<Rightarrow> [EvEmpty CompletedQ, EvLock CompletedQ, EvPop CompletedQ c, EvOnCompleted c,
                     EvDelete c, EvUnlock CompletedQ])"
  by (cases "items (CompletedRequestQueue s)")
     (simp_all add: new_events_def FrameHook_idle FrameHook_completes)

lemma new_events_AddRequestToQueue:
  "new_events s (AddRequestToQueue c s) = [EvLock RequestQ, EvPush RequestQ c, EvUnlock RequestQ]"
  by (simp add: new_events_def AddRequestToQueue_result)

text \<open>
  C4, as stated, fails for the per-tick hook: \<open>FrameHook\<close> checks \<open>Empty\<close> on both queues
  before taking any lock, and pops the completed queue after \<open>Lock\<close> without checking
  again.
\<close>

theorem unlocked_check_counterexample:
  "\<not> lock_scoped no_locks (new_events three_completed (FrameHook three_completed)) \<and>
   \<not> pops_checked no_locks no_locks (new_events three_completed (FrameHook three_completed))"
  by (simp add: new_events_FrameHook three_completed_def no_locks_def)

text \<open>
  C4, amended: every \<open>Push\<close> and \<open>Pop\<close> on the pending and completed queues is made
  while the lock of that queue is held. \<open>AsyncPerformRequests\<close>, \<open>CheckCompletedRequests\<close>
  and \<open>AddRequestToQueue\<close> make every queue access, emptiness checks included, under
  the lock, and \<open>AsyncPerformRequests\<close> checks emptiness under the lock before each pop.
  \<open>FrameHook\<close> makes its emptiness checks of both queues without the lock (its first
  call is the unlocked check of the pending queue), and when the completed queue is not
  empty its pop, made under the lock, follows the unlocked check without a re-check.
\<close>

theorem queue_mutations_are_locked:
  "lock_scoped no_locks (new_events s (AsyncPerformRequests s)) \<and>
   pops_checked no_locks no_locks (new_events s (AsyncPerformRequests s)) \<and>
   lock_scoped no_locks (new_events s (CheckCompletedRequests s)) \<and>
   lock_scoped no_locks (new_events s (AddRequestToQueue c s)) \<and>
   mutations_locked no_locks (new_events s (FrameHook s)) \<and>
   \<not> lock_scoped no_locks (new_events s (FrameHook s)) \<and>
   (\<exists>es. new_events s (FrameHook s) = EvEmpty RequestQ # es) \<and>
   (\<not> Empty (CompletedRequestQueue s) \<longrightarrow>
      \<not> pops_checked no_locks no_locks (new_events s (FrameHook s)) \<and>
      (\<exists>c. new_events s (FrameHook s) =
         wake_events s @ [EvEmpty CompletedQ, EvLock CompletedQ, EvPop CompletedQ c,
                          EvOnCompleted c, EvDelete c, EvUnlock CompletedQ]))"
proof -
  have 1: "lock_scoped no_locks (new_events s (AsyncPerformRequests s))"
    by (simp add: new_events_AsyncPerformRequests lock_scoped_admission_events)
  have 2: "pops_checked no_locks no_locks (new_events s (AsyncPerformRequests s))"
    by (simp add: new_events_AsyncPerformRequests pops_checked_admission_events)
  have 3: "lock_scoped no_locks (new_events s (CheckCompletedRequests s))"
    by (simp add: new_events_CheckCompletedRequests lock_scoped_completion_events)
  have 4: "lock_scoped no_locks (new_events s (AddRequestToQueue c s))"
    by (simp add: new_events_AddRequestToQueue)
  have 5: "mutations_locked no_locks (new_events s (FrameHook s))"
    by (simp add: new_events_FrameHook split: list.splits)
  have 6: "\<not> lock_scoped no_locks (new_events s (FrameHook s))"
    by (simp add: new_events_FrameHook)
  have 7: "\<exists>es. new_events s (FrameHook s) = EvEmpty RequestQ # es"
    by (simp add: new_events_FrameHook wake_events_def)
  have 8: "\<not> pops_checked no_locks no_locks (new_events s (FrameHook s)) \<and>
      (\<exists>c. new_events s (FrameHook s) =
         wake_events s @ [EvEmpty CompletedQ, EvLock CompletedQ, EvPop CompletedQ c,
                          EvOnCompleted c, EvDelete c, EvUnlock CompletedQ])"
    if "\<not> Empty (CompletedRequestQueue s)"
    using that by (auto simp: new_events_FrameHook Empty_def no_locks_def split: list.splits)
  from 1 2 3 4 5 6 7 8 show ?thesis by blast
qed

theorem queue_mutations_are_locked_witness:
  "\<not> pops_checked no_locks no_locks (new_events three_completed (FrameHook three_completed)) \<and>
   mutations_locked no_locks (new_events three_completed (FrameHook three_completed)) \<and>
   pops_checked no_locks no_locks (new_events mixed (AsyncPerformRequests mixed))"
proof -
  note t = queue_mutations_are_locked [of three_completed "request 1 True"]
  note u = queue_mutations_are_locked [of mixed "request 1 True"]
  have ne: "\<not> Empty (CompletedRequestQueue three_completed)"
    by (simp add: three_completed_def Empty_def)
  from t ne have 1: "\<not> pops_checked no_locks no_locks
      (new_events three_completed (FrameHook three_completed))"
    by blast
  from t have 2: "mutations_locked no_locks (new_events three_completed (FrameHook three_completed))"
    by (elim conjE)
  from u have 3: "pops_checked no_locks no_locks (new_events mixed (AsyncPerformRequests mixed))"
    by (elim conjE)
  from 1 2 3 show ?thesis by (intro conjI)
qed

section \<open>What every step of a run appends to the trace\<close>

lemma host_logged_append [simp]: "host_logged (es @ fs) = host_logged es @ host_logged fs"
  by (induction es rule: host_logged.induct) auto

lemma SDK_OnUnload_result:
  "SDK_OnUnload s =
     Some (s\<lparr>async_pending := (async_pending s)(AsyncStopLoopH := \<not> loop_running s),
             loop_running := False, frame_hook := False, unloaded := True,
             trace := trace s @ unload_events s\<rparr>)"
  by (simp add: SDK_OnUnload_def uv_thread_join_def uv_async_send_def AsyncStopLoop_def
      emit_def Let_def unload_events_def)

lemma subseq_unload_events:
  "subseq [EvAsyncSend AsyncStopLoopH, EvThreadJoin, EvLoopClose, EvUnloadedStore True] (unload_events s)"
  by (simp add: unload_events_def)

lemma host_logged_unload_events [simp]: "host_logged (unload_events s) = []"
  by (simp add: unload_events_def)

lemma torn_down_perform:
  assumes "torn_down s"
  shows "torn_down (perform a s) \<and> host_logged (trace (perform a s)) = host_logged (trace s)"
proof (cases a)
  case (Submit c)
  with assms show ?thesis by (simp add: torn_down_def AddRequestToQueue_result)
next
  case HostFrameAction
  show ?thesis
  proof (cases "frame_actions s")
    case Nil
    with HostFrameAction assms show ?thesis by simp
  next
    case (Cons f fs)
    with HostFrameAction assms show ?thesis
      by (cases f) (simp_all add: torn_down_def log_msg_def log_err_def execute_cb_def emit_def)
  qed
next
  case Unload
  with assms show ?thesis by (simp add: torn_down_def SDK_OnUnload_result)
qed (use assms in \<open>simp_all add: torn_down_def LogMessage_def LogError_def Defer_def
       AddFrameAction_def emit_def\<close>)

lemma torn_down_run:
  "torn_down s \<Longrightarrow>
     torn_down (run as s) \<and> host_logged (trace (run as s)) = host_logged (trace s)"
  unfolding run_def
proof (induction as arbitrary: s)
  case Nil
  then show ?case by simp
next
  case (Cons a as)
  from torn_down_perform [OF Cons.prems, of a] Cons.IH [of "perform a s"]
  show ?case by simp
qed

lemma wakes_sent_append [simp]: "wakes_sent (es @ fs) = wakes_sent es @ wakes_sent fs"
  by (induction es rule: wakes_sent.induct) auto

lemma callback_events_quiet:
  "list_all callback_event es \<Longrightarrow> wakes_sent es = [] \<and> admitted_handles es = []"
  by (induction es) (auto elim: callback_event.elims)

lemma trace_curl_calls:
  "\<exists>es. trace (curl_calls cb s) = trace s @ es \<and> list_all callback_event es"
  by (cases cb)
     (auto simp: CurlSocketCallback_def CurlTimeoutCallback_def uv_timer_stop_def
        uv_timer_start_def new_CurlContext_def Destroy_def uv_poll_start_def
        curl_multi_assign_def emit_def Let_def split: option.splits)

lemma trace_fold_curl_calls:
  "\<exists>es. trace (fold curl_calls r s) = trace s @ es \<and> list_all callback_event es"
proof (induction r arbitrary: s)
  case Nil
  show ?case by simp
next
  case (Cons cb r)
  obtain es where es: "trace (curl_calls cb s) = trace s @ es" "list_all callback_event es"
    using trace_curl_calls by blast
  obtain fs where fs: "trace (fold curl_calls r (curl_calls cb s)) = trace (curl_calls cb s) @ fs"
      "list_all callback_event fs"
    using Cons.IH by blast
  from es fs have "trace (fold curl_calls (cb # r) s) = trace s @ (es @ fs) \<and>
      list_all callback_event (es @ fs)" by simp
  then show ?case by blast
qed

lemma wakes_completion_events [simp]: "wakes_sent (concat (map completion_events ms)) = []"
  by (induction ms) (simp_all add: completion_events_def)

lemma admitted_completion_events [simp]:
  "admitted_handles (concat (map completion_events ms)) = []"
  by (induction ms) (simp_all add: completion_events_def)

lemma wakes_admission_events [simp]: "wakes_sent (concat (map admission_events cs)) = []"
  by (induction cs) (simp_all add: admission_events_def)

lemma trace_reactor_step:
  "\<exists>es. trace (CheckCompletedRequests (curl_multi_socket_action r sock flags s)) = trace s @ es \<and>
     wakes_sent es = [] \<and> admitted_handles es = []"
proof -
  obtain es where es: "trace (fold curl_calls r (emit (EvMultiSocketAction sock flags) s)) =
      trace (emit (EvMultiSocketAction sock flags) s) @ es" "list_all callback_event es"
    using trace_fold_curl_calls by blast
  let ?s1 = "curl_multi_socket_action r sock flags s"
  let ?fs = "EvMultiSocketAction sock flags # es @
      concat (map completion_events (messages (Curl ?s1))) @ [EvMultiInfoRead]"
  from es have "trace (CheckCompletedRequests ?s1) = trace s @ ?fs"
    by (simp add: CheckCompletedRequests_result curl_multi_socket_action_def emit_def)
  moreover from callback_events_quiet [OF es(2)]
  have "wakes_sent ?fs = [] \<and> admitted_handles ?fs = []" by simp
  ultimately show ?thesis by blast
qed

lemma trace_run_frame_action:
  "\<exists>es. trace (run_frame_action f s) = trace s @ es \<and> wakes_sent es = [] \<and>
     admitted_handles es = []"
  by (cases f) (simp_all add: log_msg_def log_err_def execute_cb_def emit_def)

lemma wakes_sent_wake_events:
  "wakes_sent (wake_events s) = (if Empty (RequestQueue s) then [] else [AsyncPerformRequestsH])"
  by (simp add: wake_events_def)

lemma admitted_wake_events [simp]: "admitted_handles (wake_events s) = []"
  by (simp add: wake_events_def)

lemma trace_perform:
  "\<exists>es. trace (perform a s) = trace s @ es \<and>
     (a \<noteq> Tick \<longrightarrow> AsyncPerformRequestsH \<notin> set (wakes_sent es)) \<and>
     (a = Tick \<longrightarrow> wakes_sent es =
        (if frame_hook s \<and> \<not> Empty (RequestQueue s) then [AsyncPerformRequestsH] else [])) \<and>
     (\<not> (a = Wake \<and> loop_running s \<and> async_pending s AsyncPerformRequestsH) \<longrightarrow>
        admitted_handles es = [])"
proof (cases a)
  case (Submit c)
  then show ?thesis by (simp add: AddRequestToQueue_result)
next
  case Tick
  then show ?thesis
    by (cases "items (CompletedRequestQueue s)")
       (simp_all add: FrameHook_idle FrameHook_completes wakes_sent_wake_events)
next
  case HostFrameAction
  show ?thesis
  proof (cases "frame_actions s")
    case Nil
    with HostFrameAction show ?thesis by simp
  next
    case (Cons f fs)
    from trace_run_frame_action [of f "s\<lparr>frame_actions := fs\<rparr>"]
    show ?thesis using HostFrameAction Cons by auto
  qed
next
  case Unload
  then show ?thesis by (simp add: SDK_OnUnload_result unload_events_def)
next
  case Wake
  then show ?thesis
    by (simp add: AsyncPerformRequests_result)
next
  case (TimerExpires r)
  from trace_reactor_step [of r CURL_SOCKET_TIMEOUT 0
      "s\<lparr>Timeout := (Timeout s)\<lparr>armed := (timer_repeat (Timeout s) \<noteq> 0)\<rparr>\<rparr>"]
  show ?thesis using TimerExpires by (auto simp: PerformRequests_def)
next
  case (SocketEvent p events r)
  show ?thesis
  proof (cases "contexts s p")
    case None
    with SocketEvent show ?thesis by simp
  next
    case (Some c)
    obtain flags where "CurlSocketActivity r p events s =
        CheckCompletedRequests (curl_multi_socket_action r (socket c) flags s)"
      using Some by (simp add: CurlSocketActivity_def Let_def)
    with trace_reactor_step [of r "socket c" flags s]
    show ?thesis using SocketEvent by auto
  qed
qed (simp_all add: LogMessage_def LogError_def Defer_def AddFrameAction_def emit_def)

lemma frame_curl_calls:
  "RequestQueue (curl_calls cb s) = RequestQueue s \<and>
   CompletedRequestQueue (curl_calls cb s) = CompletedRequestQueue s \<and>
   handles (Curl (curl_calls cb s)) = handles (Curl s) \<and>
   async_pending (curl_calls cb s) = async_pending s \<and>
   loop_running (curl_calls cb s) = loop_running s \<and>
   frame_hook (curl_calls cb s) = frame_hook s \<and>
   frame_actions (curl_calls cb s) = frame_actions s \<and>
   unloaded (curl_calls cb s) = unloaded s"
  by (cases cb)
     (auto simp: CurlSocketCallback_def CurlTimeoutCallback_def uv_timer_stop_def
        uv_timer_start_def new_CurlContext_def Destroy_def uv_poll_start_def
        curl_multi_assign_def emit_def Let_def split: option.splits)

lemma frame_fold_curl_calls:
  "RequestQueue (fold curl_calls r s) = RequestQueue s \<and>
   CompletedRequestQueue (fold curl_calls r s) = CompletedRequestQueue s \<and>
   handles (Curl (fold curl_calls r s)) = handles (Curl s) \<and>
   async_pending (fold curl_calls r s) = async_pending s \<and>
   loop_running (fold curl_calls r s) = loop_running s \<and>
   frame_hook (fold curl_calls r s) = frame_hook s \<and>
   frame_actions (fold curl_calls r s) = frame_actions s \<and>
   unloaded (fold curl_calls r s) = unloaded s"
  by (induction r arbitrary: s) (simp_all add: frame_curl_calls)

lemma frame_reactor_step:
  "RequestQueue (CheckCompletedRequests (curl_multi_socket_action r sock flags s)) = RequestQueue s \<and>
   set (handles (Curl (CheckCompletedRequests (curl_multi_socket_action r sock flags s))))
     \<subseteq> set (handles (Curl s)) \<and>
   async_pending (CheckCompletedRequests (curl_multi_socket_action r sock flags s)) =
     async_pending s"
  using set_fold_remove1 [of _ "handles (Curl s)"]
  by (simp add: CheckCompletedRequests_result curl_multi_socket_action_def
      frame_fold_curl_calls emit_def)

lemma frame_run_frame_action:
  "RequestQueue (run_frame_action f s) = RequestQueue s \<and>
   Curl (run_frame_action f s) = Curl s \<and>
   async_pending (run_frame_action f s) = async_pending s"
  by (cases f) (simp_all add: log_msg_def log_err_def execute_cb_def emit_def)

text \<open>What a step other than a tick and other than the handling of a pending wake changes.\<close>

lemma frame_perform:
  assumes "a \<noteq> Tick"
    and "\<not> (a = Wake \<and> loop_running s \<and> async_pending s AsyncPerformRequestsH)"
  shows "(\<exists>cs. items (RequestQueue (perform a s)) = items (RequestQueue s) @ cs) \<and>
         set (handles (Curl (perform a s))) \<subseteq> set (handles (Curl s)) \<and>
         async_pending (perform a s) AsyncPerformRequestsH = async_pending s AsyncPerformRequestsH"
proof (cases a)
  case (Submit c)
  then show ?thesis by (simp add: AddRequestToQueue_result)
next
  case Tick
  with assms show ?thesis by simp
next
  case HostFrameAction
  show ?thesis
  proof (cases "frame_actions s")
    case Nil
    with HostFrameAction show ?thesis by simp
  next
    case (Cons f fs)
    with HostFrameAction show ?thesis by (simp add: frame_run_frame_action)
  qed
next
  case Unload
  then show ?thesis by (simp add: SDK_OnUnload_result)
next
  case Wake
  with assms show ?thesis by auto
next
  case (TimerExpires r)
  from frame_reactor_step [of r CURL_SOCKET_TIMEOUT 0
      "s\<lparr>Timeout := (Timeout s)\<lparr>armed := (timer_repeat (Timeout s) \<noteq> 0)\<rparr>\<rparr>"]
  show ?thesis using TimerExpires by (simp add: PerformRequests_def)
next
  case (SocketEvent p events r)
  show ?thesis
  proof (cases "contexts s p")
    case None
    with SocketEvent show ?thesis by simp
  next
    case (Some c)
    obtain flags where "CurlSocketActivity r p events s =
        CheckCompletedRequests (curl_multi_socket_action r (socket c) flags s)"
      using Some by (simp add: CurlSocketActivity_def Let_def)
    with frame_reactor_step [of r "socket c" flags s]
    show ?thesis using SocketEvent by simp
  qed
qed (simp_all add: LogMessage_def LogError_def Defer_def AddFrameAction_def emit_def)

lemma run_without_tick:
  assumes "Tick \<notin> set as" and "\<not> async_pending s AsyncPerformRequestsH"
  shows "(\<exists>es. trace (run as s) = trace s @ es \<and> admitted_handles es = []) \<and>
         (\<exists>cs. items (RequestQueue (run as s)) = items (RequestQueue s) @ cs) \<and>
         set (handles (Curl (run as s))) \<subseteq> set (handles (Curl s)) \<and>
         \<not> async_pending (run as s) AsyncPerformRequestsH"
  using assms unfolding run_def
proof (induction as arbitrary: s)
  case Nil
  show ?case using Nil.prems by simp
next
  case (Cons a as)
  from Cons.prems have a: "a \<noteq> Tick"
    "\<not> (a = Wake \<and> loop_running s \<and> async_pending s AsyncPerformRequestsH)" by auto
  note f = frame_perform [OF a]
  from trace_perform [of a s] a obtain es
    where es: "trace (perform a s) = trace s @ es" "admitted_handles es = []" by blast
  from f Cons.prems have "\<not> async_pending (perform a s) AsyncPerformRequestsH" by simp
  with Cons.IH [of "perform a s"] Cons.prems
  have IH: "(\<exists>es. trace (fold perform as (perform a s)) = trace (perform a s) @ es \<and>
               admitted_handles es = []) \<and>
         (\<exists>cs. items (RequestQueue (fold perform as (perform a s))) =
               items (RequestQueue (perform a s)) @ cs) \<and>
         set (handles (Curl (fold perform as (perform a s)))) \<subseteq> set (handles (Curl (perform a s))) \<and>
         \<not> async_pending (fold perform as (perform a s)) AsyncPerformRequestsH"
    by simp
  then obtain fs where fs: "trace (fold perform as (perform a s)) = trace (perform a s) @ fs"
      "admitted_handles fs = []" by blast
  from IH obtain cs where cs: "items (RequestQueue (fold perform as (perform a s))) =
      items (RequestQueue (perform a s)) @ cs" by blast
  from f obtain ds where ds: "items (RequestQueue (perform a s)) = items (RequestQueue s) @ ds"
    by blast
  have 1: "\<exists>es. trace (fold perform (a # as) s) = trace s @ es \<and> admitted_handles es = []"
    using es fs by (intro exI [of _ "es @ fs"]) simp
  have 2: "\<exists>cs. items (RequestQueue (fold perform (a # as) s)) = items (RequestQueue s) @ cs"
    using cs ds by (intro exI [of _ "ds @ cs"]) simp
  have 3: "set (handles (Curl (fold perform (a # as) s))) \<subseteq> set (handles (Curl s))"
    using IH f by auto
  from 1 2 3 IH show ?case by simp
qed

section \<open>Properties of the per-tick hook over a run\<close>

lemma callback_events_no_completions:
  "list_all callback_event es \<Longrightarrow> completions es = []"
  by (induction es) (auto elim: callback_event.elims)

lemma completed_reactor_step:
  "\<exists>es ps. trace (CheckCompletedRequests (curl_multi_socket_action r sock flags s)) = trace s @ es \<and>
     completions es = [] \<and>
     items (CompletedRequestQueue (CheckCompletedRequests (curl_multi_socket_action r sock flags s))) =
       items (CompletedRequestQueue s) @ ps \<and>
     frame_hook (CheckCompletedRequests (curl_multi_socket_action r sock flags s)) = frame_hook s"
proof -
  obtain es where es: "trace (fold curl_calls r (emit (EvMultiSocketAction sock flags) s)) =
      trace (emit (EvMultiSocketAction sock flags) s) @ es" "list_all callback_event es"
    using trace_fold_curl_calls by blast
  let ?s1 = "curl_multi_socket_action r sock flags s"
  let ?fs = "EvMultiSocketAction sock flags # es @
      concat (map completion_events (messages (Curl ?s1))) @ [EvMultiInfoRead]"
  from es have "trace (CheckCompletedRequests ?s1) = trace s @ ?fs"
    by (simp add: CheckCompletedRequests_result curl_multi_socket_action_def emit_def)
  moreover from callback_events_no_completions [OF es(2)]
  have "completions ?fs = []" by (simp add: completions_completion_events)
  moreover have "items (CompletedRequestQueue (CheckCompletedRequests ?s1)) =
      items (CompletedRequestQueue s) @ map CURLINFO_PRIVATE (done_handles (messages (Curl ?s1)))"
    by (simp add: CheckCompletedRequests_result curl_multi_socket_action_def
        frame_fold_curl_calls emit_def)
  moreover have "frame_hook (CheckCompletedRequests ?s1) = frame_hook s"
    by (simp add: CheckCompletedRequests_result curl_multi_socket_action_def
        frame_fold_curl_calls emit_def)
  ultimately show ?thesis by blast
qed

text \<open>
  What a step does to the completed queue: a tick with the hook installed completes the
  context at the front, if there is one; every step leaves the rest in place and may add
  contexts at the back.
\<close>

lemma completed_perform:
  "\<exists>es ps. trace (perform a s) = trace s @ es \<and>
     completions es = (if a = Tick \<and> frame_hook s then take 1 (items (CompletedRequestQueue s)) else []) \<and>
     items (CompletedRequestQueue (perform a s)) =
       drop (length (completions es)) (items (CompletedRequestQueue s)) @ ps \<and>
     (a \<noteq> Unload \<longrightarrow> frame_hook (perform a s) = frame_hook s)"
proof (cases a)
  case (Submit c)
  then show ?thesis by (simp add: AddRequestToQueue_result)
next
  case Tick
  then show ?thesis
    by (cases "items (CompletedRequestQueue s)")
       (simp_all add: FrameHook_idle FrameHook_completes)
next
  case HostFrameAction
  show ?thesis
  proof (cases "frame_actions s")
    case Nil
    with HostFrameAction show ?thesis by simp
  next
    case (Cons f fs)
    with HostFrameAction show ?thesis
      by (cases f) (simp_all add: log_msg_def log_err_def execute_cb_def emit_def)
  qed
next
  case Unload
  then show ?thesis by (simp add: SDK_OnUnload_result unload_events_def)
next
  case Wake
  then show ?thesis by (simp add: AsyncPerformRequests_result completions_admission_events)
next
  case (TimerExpires r)
  from completed_reactor_step [of r CURL_SOCKET_TIMEOUT 0
      "s\<lparr>Timeout := (Timeout s)\<lparr>armed := (timer_repeat (Timeout s) \<noteq> 0)\<rparr>\<rparr>"]
  show ?thesis using TimerExpires by (auto simp: PerformRequests_def)
next
  case (SocketEvent p events r)
  show ?thesis
  proof (cases "contexts s p")
    case None
    with SocketEvent show ?thesis by simp
  next
    case (Some c)
    obtain flags where "CurlSocketActivity r p events s =
        CheckCompletedRequests (curl_multi_socket_action r (socket c) flags s)"
      using Some by (simp add: CurlSocketActivity_def Let_def)
    with completed_reactor_step [of r "socket c" flags s]
    show ?thesis using SocketEvent by auto
  qed
qed (simp_all add: LogMessage_def LogError_def Defer_def AddFrameAction_def emit_def)

lemma completed_run:
  assumes "frame_hook s" and "Unload \<notin> set as"
  shows "\<exists>es ps. trace (run as s) = trace s @ es \<and>
     completions es @ items (CompletedRequestQueue (run as s)) =
       items (CompletedRequestQueue s) @ ps \<and>
     min (ticks as) (length (items (CompletedRequestQueue s))) \<le> length (completions es)"
  using assms unfolding run_def
proof (induction as arbitrary: s)
  case Nil
  show ?case by (simp add: ticks_def)
next
  case (Cons a as)
  let ?q = "items (CompletedRequestQueue s)"
  let ?s1 = "perform a s"
  from Cons.prems have a: "a \<noteq> Unload" and as: "Unload \<notin> set as" by auto
  from completed_perform [of a s] a obtain es ps
    where es: "trace ?s1 = trace s @ es"
      "completions es = (if a = Tick \<and> frame_hook s then take 1 ?q else [])"
      "items (CompletedRequestQueue ?s1) = drop (length (completions es)) ?q @ ps"
      "frame_hook ?s1 = frame_hook s"
    by blast
  from es(4) Cons.prems have "frame_hook ?s1" by simp
  from Cons.IH [OF this as] obtain fs qs
    where fs: "trace (fold perform as ?s1) = trace ?s1 @ fs"
      "completions fs @ items (CompletedRequestQueue (fold perform as ?s1)) =
         items (CompletedRequestQueue ?s1) @ qs"
      "min (ticks as) (length (items (CompletedRequestQueue ?s1))) \<le> length (completions fs)"
    by blast
  have c1: "completions es = take (length (completions es)) ?q"
    using es(2) by (cases ?q) simp_all
  have 1: "trace (fold perform (a # as) s) = trace s @ (es @ fs)"
    using es(1) fs(1) by simp
  have "completions (es @ fs) @ items (CompletedRequestQueue (fold perform (a # as) s)) =
      completions es @ items (CompletedRequestQueue ?s1) @ qs"
    using fs(2) by simp
  also have "\<dots> = (take (length (completions es)) ?q @ drop (length (completions es)) ?q) @ ps @ qs"
    using es(3) c1 by simp
  finally have 2: "completions (es @ fs) @ items (CompletedRequestQueue (fold perform (a # as) s)) =
      ?q @ (ps @ qs)" by simp
  have len1: "length ?q - length (completions es) \<le> length (items (CompletedRequestQueue ?s1))"
    using es(3) by simp
  have t: "ticks (a # as) = (if a = Tick then 1 else 0) + ticks as"
    by (simp add: ticks_def)
  have l: "length (completions es) = (if a = Tick \<and> ?q \<noteq> [] then 1 else 0)"
    using es(2) Cons.prems(1) by (cases ?q) simp_all
  have 3: "min (ticks (a # as)) (length ?q) \<le> length (completions (es @ fs))"
    using fs(3) len1 t l by (auto split: if_splits)
  from 1 2 3 show ?case by blast
qed

lemma first_completions:
  assumes "frame_hook s" and "Unload \<notin> set as"
    and "length (items (CompletedRequestQueue s)) \<le> ticks as"
  shows "take (length (items (CompletedRequestQueue s))) (completions (new_events s (run as s))) =
     items (CompletedRequestQueue s)"
proof -
  from completed_run [OF assms(1,2)] obtain es ps
    where es: "trace (run as s) = trace s @ es"
      "completions es @ items (CompletedRequestQueue (run as s)) =
         items (CompletedRequestQueue s) @ ps"
      "min (ticks as) (length (items (CompletedRequestQueue s))) \<le> length (completions es)"
    by blast
  from es(3) assms(3) have "length (items (CompletedRequestQueue s)) \<le> length (completions es)"
    by simp
  with es(2) have "take (length (items (CompletedRequestQueue s))) (completions es) =
      items (CompletedRequestQueue s)"
    by (metis append_eq_append_conv_if append_eq_conv_conj)
  with es(1) show ?thesis by (simp add: new_events_def)
qed

text \<open>
  C3: one run of \<open>FrameHook\<close> calls \<open>OnCompleted\<close> at most once. With an empty completed
  queue it calls none and leaves the queue as it is. With a completed queue \<open>c # cs\<close> it
  pops \<open>c\<close>, calls \<open>OnCompleted\<close> of \<open>c\<close>, then deletes \<open>c\<close>, and leaves \<open>cs\<close>. A push puts
  a context at the back of the queue. Over \<open>n\<close> ticks the callbacks run for the first \<open>n\<close>
  contexts of the queue in queue order (the order they were pushed in) and the rest
  stays queued, so a queue of \<open>n\<close> completions is empty after \<open>n\<close> ticks. The order also
  holds when other handlers run between the ticks: in a run with the hook installed
  that contains at least as many ticks as the completed queue holds contexts, the first
  callbacks are those of the queued contexts, in queue order.
\<close>

theorem tick_completes_at_most_one:
  "length (completions (new_events s (FrameHook s))) \<le> 1 \<and>
   (items (CompletedRequestQueue s) = [] \<longrightarrow>
      completions (new_events s (FrameHook s)) = [] \<and>
      CompletedRequestQueue (FrameHook s) = CompletedRequestQueue s) \<and>
   (\<forall>c cs. items (CompletedRequestQueue s) = c # cs \<longrightarrow>
      new_events s (FrameHook s) =
        wake_events s @
        [EvEmpty CompletedQ, EvLock CompletedQ, EvPop CompletedQ c, EvOnCompleted c, EvDelete c,
         EvUnlock CompletedQ] \<and>
      completions (new_events s (FrameHook s)) = [c] \<and>
      items (CompletedRequestQueue (FrameHook s)) = cs) \<and>
   completions (new_events s ((FrameHook ^^ n) s)) = take n (items (CompletedRequestQueue s)) \<and>
   items (CompletedRequestQueue ((FrameHook ^^ n) s)) = drop n (items (CompletedRequestQueue s)) \<and>
   (n = length (items (CompletedRequestQueue s)) \<longrightarrow>
      completions (new_events s ((FrameHook ^^ n) s)) = items (CompletedRequestQueue s) \<and>
      items (CompletedRequestQueue ((FrameHook ^^ n) s)) = []) \<and>
   items (CompletedRequestQueue (q_Push CompletedQ c' s)) = items (CompletedRequestQueue s) @ [c'] \<and>
   (frame_hook s \<and> Unload \<notin> set as \<and> length (items (CompletedRequestQueue s)) \<le> ticks as \<longrightarrow>
      take (length (items (CompletedRequestQueue s))) (completions (new_events s (run as s))) =
        items (CompletedRequestQueue s))"
proof -
  obtain es where es: "trace (FrameHook s) = trace s @ es"
      "completions es = take 1 (items (CompletedRequestQueue s))"
    using FrameHook_trace by blast
  then have 1: "length (completions (new_events s (FrameHook s))) \<le> 1"
    by (simp add: new_events_def)
  have 2: "completions (new_events s (FrameHook s)) = [] \<and>
      CompletedRequestQueue (FrameHook s) = CompletedRequestQueue s"
    if "items (CompletedRequestQueue s) = []"
    using that by (simp add: FrameHook_idle new_events_def)
  have 3: "new_events s (FrameHook s) =
        wake_events s @
        [EvEmpty CompletedQ, EvLock CompletedQ, EvPop CompletedQ c, EvOnCompleted c, EvDelete c,
         EvUnlock CompletedQ] \<and>
      completions (new_events s (FrameHook s)) = [c] \<and>
      items (CompletedRequestQueue (FrameHook s)) = cs"
    if "items (CompletedRequestQueue s) = c # cs" for c cs
    using that by (simp add: FrameHook_completes new_events_def)
  obtain fs where fs: "trace ((FrameHook ^^ n) s) = trace s @ fs"
      "completions fs = take n (items (CompletedRequestQueue s))"
      "items (CompletedRequestQueue ((FrameHook ^^ n) s)) = drop n (items (CompletedRequestQueue s))"
    using ticks_trace by blast
  then have 4: "completions (new_events s ((FrameHook ^^ n) s)) =
      take n (items (CompletedRequestQueue s))"
    by (simp add: new_events_def)
  note 5 = fs(3)
  from 4 5 have 6: "completions (new_events s ((FrameHook ^^ n) s)) = items (CompletedRequestQueue s) \<and>
      items (CompletedRequestQueue ((FrameHook ^^ n) s)) = []"
    if "n = length (items (CompletedRequestQueue s))"
    using that by simp
  have 7: "items (CompletedRequestQueue (q_Push CompletedQ c' s)) =
      items (CompletedRequestQueue s) @ [c']"
    by (simp add: q_Push_def Push_def emit_def)
  have 8: "take (length (items (CompletedRequestQueue s))) (completions (new_events s (run as s))) =
        items (CompletedRequestQueue s)"
    if "frame_hook s \<and> Unload \<notin> set as \<and> length (items (CompletedRequestQueue s)) \<le> ticks as"
    using that first_completions [of s as] by blast
  from 1 2 3 4 5 6 7 8 show ?thesis by blast
qed

theorem tick_completes_at_most_one_witness:
  "completions (new_events three_completed (FrameHook three_completed)) = [request 1 True] \<and>
   items (CompletedRequestQueue (FrameHook three_completed)) = [request 2 True, request 3 True] \<and>
   completions (new_events three_completed ((FrameHook ^^ 3) three_completed)) =
     [request 1 True, request 2 True, request 3 True] \<and>
   items (CompletedRequestQueue ((FrameHook ^^ 3) three_completed)) = [] \<and>
   completions (new_events loaded (FrameHook loaded)) = [] \<and>
   take 3 (completions (new_events three_completed
      (run [Tick, TimerExpires [], Tick, Submit (request 4 True), Tick] three_completed))) =
     [request 1 True, request 2 True, request 3 True]"
proof -
  note one = tick_completes_at_most_one [of three_completed 3 "request 4 True"
      "[Tick, TimerExpires [], Tick, Submit (request 4 True), Tick]"]
  note none = tick_completes_at_most_one [of loaded 0 "request 4 True" "[]"]
  have q: "items (CompletedRequestQueue three_completed) =
      request 1 True # [request 2 True, request 3 True]"
    by (simp add: three_completed_def)
  from one have "\<forall>c cs. items (CompletedRequestQueue three_completed) = c # cs \<longrightarrow>
      new_events three_completed (FrameHook three_completed) =
        wake_events three_completed @
        [EvEmpty CompletedQ, EvLock CompletedQ, EvPop CompletedQ c, EvOnCompleted c, EvDelete c,
         EvUnlock CompletedQ] \<and>
      completions (new_events three_completed (FrameHook three_completed)) = [c] \<and>
      items (CompletedRequestQueue (FrameHook three_completed)) = cs"
    by (elim conjE)
  from this [rule_format, OF q]
  have 1: "completions (new_events three_completed (FrameHook three_completed)) = [request 1 True]"
    and 2: "items (CompletedRequestQueue (FrameHook three_completed)) =
      [request 2 True, request 3 True]"
    by simp_all
  from one have "3 = length (items (CompletedRequestQueue three_completed)) \<longrightarrow>
      completions (new_events three_completed ((FrameHook ^^ 3) three_completed)) =
        items (CompletedRequestQueue three_completed) \<and>
      items (CompletedRequestQueue ((FrameHook ^^ 3) three_completed)) = []"
    by (elim conjE)
  then have 3: "completions (new_events three_completed ((FrameHook ^^ 3) three_completed)) =
      [request 1 True, request 2 True, request 3 True]"
    and 4: "items (CompletedRequestQueue ((FrameHook ^^ 3) three_completed)) = []"
    by (simp_all add: q)
  from none have "items (CompletedRequestQueue loaded) = [] \<longrightarrow>
      completions (new_events loaded (FrameHook loaded)) = [] \<and>
      CompletedRequestQueue (FrameHook loaded) = CompletedRequestQueue loaded"
    by (elim conjE)
  then have 5: "completions (new_events loaded (FrameHook loaded)) = []"
    by (simp add: completed_loaded)
  have h: "frame_hook three_completed \<and>
      Unload \<notin> set [Tick, TimerExpires [], Tick, Submit (request 4 True), Tick] \<and>
      length (items (CompletedRequestQueue three_completed)) \<le>
        ticks [Tick, TimerExpires [], Tick, Submit (request 4 True), Tick]"
    by (simp add: three_completed_def loaded_eq globals0_def ticks_def)
  from one have "frame_hook three_completed \<and>
      Unload \<notin> set [Tick, TimerExpires [], Tick, Submit (request 4 True), Tick] \<and>
      length (items (CompletedRequestQueue three_completed)) \<le>
        ticks [Tick, TimerExpires [], Tick, Submit (request 4 True), Tick] \<longrightarrow>
      take (length (items (CompletedRequestQueue three_completed)))
        (completions (new_events three_completed
          (run [Tick, TimerExpires [], Tick, Submit (request 4 True), Tick] three_completed))) =
        items (CompletedRequestQueue three_completed)"
    by (elim conjE)
  from this [rule_format, OF h]
  have 6: "take 3 (completions (new_events three_completed
      (run [Tick, TimerExpires [], Tick, Submit (request 4 True), Tick] three_completed))) =
     [request 1 True, request 2 True, request 3 True]"
    by (simp add: q numeral_3_eq_3)
  from 1 2 3 4 5 6 show ?thesis by (intro conjI)
qed

section \<open>Properties of unloading\<close>

lemma prefix_run: "\<exists>es. trace (run as s) = trace s @ es"
  unfolding run_def
proof (induction as arbitrary: s)
  case Nil
  show ?case by simp
next
  case (Cons a as)
  from trace_perform [of a s] obtain es where "trace (perform a s) = trace s @ es" by blast
  moreover from Cons.IH [of "perform a s"] obtain fs
    where "trace (fold perform as (perform a s)) = trace (perform a s) @ fs" by blast
  ultimately show ?case by simp
qed

lemma torn_down_Unload: "torn_down (perform Unload s)"
  by (simp add: torn_down_def SDK_OnUnload_result)

lemma deferred_then_unloaded_eq:
  "deferred_then_unloaded =
     loaded\<lparr>async_pending := (async_pending loaded)(AsyncStopLoopH := False),
       loop_running := False, frame_hook := False, unloaded := True,
       frame_actions := [ExecuteCbAction 7, LogMsgAction ''done''],
       trace := trace loaded @
         [EvAddFrameAction (ExecuteCbAction 7), EvAddFrameAction (LogMsgAction ''done'')] @
         unload_events loaded\<rparr>"
  by (simp add: deferred_then_unloaded_def run_def Defer_def LogMessage_def AddFrameAction_def
      emit_def SDK_OnUnload_result loaded_eq globals0_def unload_events_def)

text \<open>
  C7, as stated, fails for deferred callbacks: \<open>execute_cb\<close> does not read the flag
  \<open>unloaded\<close>. A callback deferred before \<open>SDK_OnUnload\<close> and run by the host after it
  has returned is invoked.
\<close>

theorem deferred_callback_after_unload_counterexample:
  "unloaded deferred_then_unloaded \<and>
   new_events deferred_then_unloaded (perform HostFrameAction deferred_then_unloaded) =
     [EvInvokeCallback 7, EvReleaseCallback 7]"
  by (simp add: deferred_then_unloaded_eq new_events_def execute_cb_def emit_def)

text \<open>
  C7, amended: \<open>SDK_OnUnload\<close> returns, with the flag \<open>unloaded\<close> set and the reactor
  stopped; on the way it sends the stop wake, joins the reactor thread, closes the loop
  and stores the flag, in that order. Whatever runs afterwards, the flag stays set and
  nothing more is handed to the host's logger: \<open>log_msg\<close> and \<open>log_err\<close> then only free
  their message. This covers the log relay only: \<open>execute_cb\<close> does the same whatever the
  flag is.
\<close>

theorem unload_silences_the_log_relay:
  "(\<exists>s'. SDK_OnUnload s = Some s') \<and>
   unloaded (perform Unload s) \<and>
   \<not> loop_running (perform Unload s) \<and>
   subseq [EvAsyncSend AsyncStopLoopH, EvThreadJoin, EvLoopClose, EvUnloadedStore True] (new_events s (perform Unload s)) \<and>
   (\<forall>as. unloaded (run as (perform Unload s)) \<and>
         host_logged (new_events (perform Unload s) (run as (perform Unload s))) = []) \<and>
   (\<forall>s' m. unloaded s' \<longrightarrow>
      new_events s' (log_msg m s') = [EvFree m] \<and> new_events s' (log_err m s') = [EvFree m]) \<and>
   (\<forall>s' cb. new_events s' (execute_cb cb s') = [EvInvokeCallback cb, EvReleaseCallback cb])"
proof -
  have 1: "\<exists>s'. SDK_OnUnload s = Some s'" by (simp add: SDK_OnUnload_result)
  have 2: "unloaded (perform Unload s)" and 3: "\<not> loop_running (perform Unload s)"
    using torn_down_Unload [of s] by (simp_all add: torn_down_def)
  have 4: "subseq [EvAsyncSend AsyncStopLoopH, EvThreadJoin, EvLoopClose, EvUnloadedStore True] (new_events s (perform Unload s))"
    using subseq_unload_events [of s] by (simp add: new_events_def SDK_OnUnload_result)
  have 5: "unloaded (run as (perform Unload s)) \<and>
         host_logged (new_events (perform Unload s) (run as (perform Unload s))) = []" for as
  proof -
    note t = torn_down_run [OF torn_down_Unload, of as s]
    obtain es where es: "trace (run as (perform Unload s)) = trace (perform Unload s) @ es"
      using prefix_run by blast
    with t have "host_logged es = []" by simp
    with es t show ?thesis by (simp add: new_events_def torn_down_def)
  qed
  have 6: "new_events s' (log_msg m s') = [EvFree m] \<and> new_events s' (log_err m s') = [EvFree m]"
    if "unloaded s'" for s' m
    using that by (simp add: new_events_def log_msg_def log_err_def emit_def)
  have 7: "new_events s' (execute_cb cb s') = [EvInvokeCallback cb, EvReleaseCallback cb]"
    for s' cb
    by (simp add: new_events_def execute_cb_def emit_def)
  from 1 2 3 4 5 6 7 show ?thesis by blast
qed

theorem unload_silences_the_log_relay_witness:
  "unloaded deferred_then_unloaded \<and>
   host_logged (new_events deferred_then_unloaded
      (run [HostFrameAction, HostFrameAction] deferred_then_unloaded)) = [] \<and>
   new_events deferred_then_unloaded (log_msg ''done'' deferred_then_unloaded) = [EvFree ''done'']"
proof -
  note t = unload_silences_the_log_relay [of "run [CallDefer 7, CallLogMessage ''done''] loaded"]
  have s: "perform Unload (run [CallDefer 7, CallLogMessage ''done''] loaded) =
      deferred_then_unloaded"
    by (simp add: deferred_then_unloaded_def run_def)
  from t have "\<forall>as. unloaded (run as (perform Unload (run [CallDefer 7, CallLogMessage ''done''] loaded))) \<and>
      host_logged (new_events (perform Unload (run [CallDefer 7, CallLogMessage ''done''] loaded))
        (run as (perform Unload (run [CallDefer 7, CallLogMessage ''done''] loaded)))) = []"
    by (elim conjE)
  note later = this [unfolded s]
  from t have 1: "unloaded deferred_then_unloaded" unfolding s by (elim conjE)
  from later [rule_format, of "[HostFrameAction, HostFrameAction]"]
  have 2: "host_logged (new_events deferred_then_unloaded
      (run [HostFrameAction, HostFrameAction] deferred_then_unloaded)) = []"
    by (elim conjE)
  from t have "\<forall>s' m. unloaded s' \<longrightarrow>
      new_events s' (log_msg m s') = [EvFree m] \<and> new_events s' (log_err m s') = [EvFree m]"
    by (elim conjE)
  from this [rule_format, OF 1, of "''done''"]
  have 3: "new_events deferred_then_unloaded (log_msg ''done'' deferred_then_unloaded) =
      [EvFree ''done'']"
    by (elim conjE)
  from 1 2 3 show ?thesis by (intro conjI)
qed

section \<open>Properties of submission\<close>

lemma waking_eq:
  "waking =
     loaded\<lparr>RequestQueue := \<lparr>items = [request 1 True], locked = False\<rparr>,
       async_pending := (async_pending loaded)(AsyncPerformRequestsH := True),
       trace := trace loaded @
         [EvLock RequestQ, EvPush RequestQ (request 1 True), EvUnlock RequestQ,
          EvEmpty RequestQ, EvAsyncSend AsyncPerformRequestsH, EvEmpty CompletedQ]\<rparr>"
proof -
  let ?s1 = "AddRequestToQueue (request 1 True) loaded"
  have c: "items (CompletedRequestQueue ?s1) = []"
    by (simp add: AddRequestToQueue_result completed_loaded)
  have "waking = FrameHook ?s1"
    by (simp add: waking_def run_def AddRequestToQueue_result loaded_eq)
  also have "\<dots> = loaded\<lparr>RequestQueue := \<lparr>items = [request 1 True], locked = False\<rparr>,
       async_pending := (async_pending loaded)(AsyncPerformRequestsH := True),
       trace := trace loaded @
         [EvLock RequestQ, EvPush RequestQ (request 1 True), EvUnlock RequestQ,
          EvEmpty RequestQ, EvAsyncSend AsyncPerformRequestsH, EvEmpty CompletedQ]\<rparr>"
    unfolding FrameHook_idle [OF c]
    by (intro engine.equality LockedQueue.equality)
       (simp_all add: AddRequestToQueue_result wake_events_def Empty_def loaded_eq globals0_def)
  finally show ?thesis .
qed

text \<open>
  C10, as stated, fails in its last part: a context submitted while a wake sent by an
  earlier tick is still pending is admitted when the reactor handles that wake, with no
  tick after the submission.
\<close>

theorem admitted_without_a_later_tick_counterexample:
  "curl (request 2 True) \<in>
     set (handles (Curl (run [Wake] (AddRequestToQueue (request 2 True) waking)))) \<and>
   admitted_handles (new_events waking (run [Wake] (AddRequestToQueue (request 2 True) waking))) =
     [curl (request 1 True), curl (request 2 True)]"
proof -
  let ?s2 = "AddRequestToQueue (request 2 True) waking"
  have q: "items (RequestQueue ?s2) = [request 1 True, request 2 True]"
    and p: "async_pending ?s2 AsyncPerformRequestsH" and l: "loop_running ?s2"
    and h: "handles (Curl ?s2) = []"
    and tr: "trace ?s2 = trace waking @
        [EvLock RequestQ, EvPush RequestQ (request 2 True), EvUnlock RequestQ]"
    by (simp_all add: AddRequestToQueue_result waking_eq loaded_eq globals0_def)
  let ?s3 = "?s2\<lparr>async_pending := (async_pending ?s2)(AsyncPerformRequestsH := False)\<rparr>"
  have r: "run [Wake] ?s2 = AsyncPerformRequests ?s3"
    using p l by (simp add: run_def)
  have d: "drained 0 (items (RequestQueue ?s2)) = [request 1 True, request 2 True]"
    unfolding q by (simp add: MAX_PROCESS_def request_def InitCurl_def)
  have i: "filter InitCurl [request 1 True, request 2 True] = [request 1 True, request 2 True]"
    by (simp add: request_def InitCurl_def)
  have q3: "RequestQueue ?s3 = RequestQueue ?s2" "Curl ?s3 = Curl ?s2" "trace ?s3 = trace ?s2"
    by simp_all
  have "handles (Curl (AsyncPerformRequests ?s3)) =
      handles (Curl ?s3) @ map curl (filter InitCurl (drained 0 (items (RequestQueue ?s3))))"
    by (subst AsyncPerformRequests_result) simp
  then have 1: "handles (Curl (run [Wake] ?s2)) = [curl (request 1 True), curl (request 2 True)]"
    unfolding r q3 d i h by simp
  have "trace (AsyncPerformRequests ?s3) = trace ?s3 @
      EvLock RequestQ # concat (map admission_events (drained 0 (items (RequestQueue ?s3)))) @
      [EvEmpty RequestQ, EvUnlock RequestQ]"
    by (subst AsyncPerformRequests_result) simp
  then have "new_events waking (run [Wake] ?s2) =
      [EvLock RequestQ, EvPush RequestQ (request 2 True), EvUnlock RequestQ] @
      EvLock RequestQ # concat (map admission_events [request 1 True, request 2 True]) @
      [EvEmpty RequestQ, EvUnlock RequestQ]"
    unfolding r q3 d tr by (simp add: new_events_def)
  then have 2: "admitted_handles (new_events waking (run [Wake] ?s2)) =
      map curl (filter InitCurl [request 1 True, request 2 True])"
    by (simp only: admitted_handles_append admitted_admission_events admitted_handles.simps
        append_Nil append_Nil2 append_Cons)
  from 1 2 show ?thesis unfolding i by simp
qed

text \<open>
  C10, amended: \<open>AddRequestToQueue\<close> locks the pending queue, pushes the context and
  unlocks; it changes nothing else and sends no wake. The "new work pending" wake is
  sent by the per-tick hook only, and only when it finds the pending queue not empty
  (then it does send it). So a context submitted while no such wake is pending is not
  admitted before the next tick runs: until then nothing is admitted, the active set
  gains nothing, and the context stays in the pending queue.
\<close>

theorem submit_only_enqueues:
  "AddRequestToQueue c s =
     s\<lparr>RequestQueue := (RequestQueue s)\<lparr>items := items (RequestQueue s) @ [c], locked := False\<rparr>,
       trace := trace s @ [EvLock RequestQ, EvPush RequestQ c, EvUnlock RequestQ]\<rparr> \<and>
   (AsyncPerformRequestsH \<in> set (wakes_sent (new_events s (perform a s))) \<longrightarrow>
      a = Tick \<and> frame_hook s \<and> \<not> Empty (RequestQueue s)) \<and>
   (frame_hook s \<and> \<not> Empty (RequestQueue s) \<longrightarrow>
      wakes_sent (new_events s (perform Tick s)) = [AsyncPerformRequestsH] \<and>
      async_pending (perform Tick s) AsyncPerformRequestsH) \<and>
   (\<not> async_pending s AsyncPerformRequestsH \<and> Tick \<notin> set as \<longrightarrow>
      admitted_handles (new_events s (run as (AddRequestToQueue c s))) = [] \<and>
      set (handles (Curl (run as (AddRequestToQueue c s)))) \<subseteq> set (handles (Curl s)) \<and>
      c \<in> set (items (RequestQueue (run as (AddRequestToQueue c s)))))"
proof -
  note 1 = AddRequestToQueue_result [of c s]
  obtain es where es: "trace (perform a s) = trace s @ es"
      "a \<noteq> Tick \<longrightarrow> AsyncPerformRequestsH \<notin> set (wakes_sent es)"
      "a = Tick \<longrightarrow> wakes_sent es =
        (if frame_hook s \<and> \<not> Empty (RequestQueue s) then [AsyncPerformRequestsH] else [])"
    using trace_perform [of a s] by blast
  then have 2: "AsyncPerformRequestsH \<in> set (wakes_sent (new_events s (perform a s))) \<longrightarrow>
      a = Tick \<and> frame_hook s \<and> \<not> Empty (RequestQueue s)"
    by (cases "a = Tick") (auto simp: new_events_def split: if_splits)
  have 3: "wakes_sent (new_events s (perform Tick s)) = [AsyncPerformRequestsH] \<and>
      async_pending (perform Tick s) AsyncPerformRequestsH"
    if "frame_hook s \<and> \<not> Empty (RequestQueue s)"
    using that
    by (cases "items (CompletedRequestQueue s)")
       (simp_all add: new_events_def FrameHook_idle FrameHook_completes wakes_sent_wake_events)
  have 4: "admitted_handles (new_events s (run as (AddRequestToQueue c s))) = [] \<and>
      set (handles (Curl (run as (AddRequestToQueue c s)))) \<subseteq> set (handles (Curl s)) \<and>
      c \<in> set (items (RequestQueue (run as (AddRequestToQueue c s))))"
    if "\<not> async_pending s AsyncPerformRequestsH \<and> Tick \<notin> set as"
  proof -
    let ?s' = "AddRequestToQueue c s"
    from that have "\<not> async_pending ?s' AsyncPerformRequestsH" and "Tick \<notin> set as"
      by (simp_all add: 1)
    from run_without_tick [OF this(2) this(1)]
    obtain es cs where r: "trace (run as ?s') = trace ?s' @ es" "admitted_handles es = []"
        "items (RequestQueue (run as ?s')) = items (RequestQueue ?s') @ cs"
        "set (handles (Curl (run as ?s'))) \<subseteq> set (handles (Curl ?s'))"
      by blast
    from r(1) have "new_events s (run as ?s') =
        [EvLock RequestQ, EvPush RequestQ c, EvUnlock RequestQ] @ es"
      by (simp add: new_events_def 1)
    with r show ?thesis by (simp add: 1)
  qed
  from 1 2 3 4 show ?thesis by blast
qed

theorem submit_only_enqueues_witness:
  "admitted_handles (new_events loaded
      (run [Wake, TimerExpires [], HostFrameAction] (AddRequestToQueue (request 1 True) loaded))) = [] \<and>
   request 1 True \<in> set (items (RequestQueue
      (run [Wake, TimerExpires [], HostFrameAction] (AddRequestToQueue (request 1 True) loaded)))) \<and>
   async_pending (perform Tick (AddRequestToQueue (request 1 True) loaded)) AsyncPerformRequestsH"
proof -
  note t = submit_only_enqueues [of "request 1 True" loaded Tick
      "[Wake, TimerExpires [], HostFrameAction]"]
  note u = submit_only_enqueues [of "request 2 True" "AddRequestToQueue (request 1 True) loaded"
      Tick "[]"]
  have np: "\<not> async_pending loaded AsyncPerformRequestsH \<and>
      Tick \<notin> set [Wake, TimerExpires [], HostFrameAction]"
    by (simp add: loaded_eq globals0_def)
  from t np have 1: "admitted_handles (new_events loaded
      (run [Wake, TimerExpires [], HostFrameAction] (AddRequestToQueue (request 1 True) loaded))) = []"
    and 2: "request 1 True \<in> set (items (RequestQueue
      (run [Wake, TimerExpires [], HostFrameAction] (AddRequestToQueue (request 1 True) loaded))))"
    by blast+
  have ne: "frame_hook (AddRequestToQueue (request 1 True) loaded) \<and>
      \<not> Empty (RequestQueue (AddRequestToQueue (request 1 True) loaded))"
    by (simp add: AddRequestToQueue_result loaded_eq globals0_def Empty_def)
  from u ne have 3: "async_pending (perform Tick (AddRequestToQueue (request 1 True) loaded))
      AsyncPerformRequestsH"
    by blast
  from 1 2 3 show ?thesis by (intro conjI)
qed

end
